theory Spec2Isabelle
  imports Complex_Main "HOL-Library.Multiset"
begin

section \<open>Data model of Grafo.py\<close>

text \<open>
  \<^verbatim>\<open>class Node\<close> has the fields \<^verbatim>\<open>value\<close>, \<^verbatim>\<open>left\<close>, \<^verbatim>\<open>right\<close> and \<^verbatim>\<open>height\<close>.
  A reference held in \<^verbatim>\<open>left\<close>, \<^verbatim>\<open>right\<close> or \<^verbatim>\<open>root\<close> is either Python's
  \<^verbatim>\<open>None\<close> (here \<open>Absent\<close>) or a node object. Keys are Python integers (the caller
  converts the entry text with \<^verbatim>\<open>int(...)\<close>), heights are Python integers too.
  The argument order of \<open>Node\<close> is that of the class: value, left, right, height.
\<close>

datatype node = Absent | Node int node node int

text \<open>Reading an attribute of \<^verbatim>\<open>None\<close> raises \<^verbatim>\<open>AttributeError\<close>.\<close>

datatype error = AttributeError

text \<open>\<^verbatim>\<open>class AVLTree\<close> owns the root reference; \<^verbatim>\<open>__init__\<close> sets it to \<^verbatim>\<open>None\<close>.\<close>

record AVLTree =
  root :: node

definition AVLTree_init :: AVLTree where
  "AVLTree_init = \<lparr>root = Absent\<rparr>"

section \<open>Operations\<close>

text \<open>\<^verbatim>\<open>_get_height\<close> (lines 67-71): the stored field, 0 for \<^verbatim>\<open>None\<close>.\<close>

fun get_height :: "node \<Rightarrow> int" where
  "get_height Absent = 0"
| "get_height (Node v l r h) = h"

text \<open>\<^verbatim>\<open>_get_balance\<close> (lines 73-77).\<close>

fun get_balance :: "node \<Rightarrow> int" where
  "get_balance Absent = 0"
| "get_balance (Node v l r h) = get_height l - get_height r"

text \<open>
  \<^verbatim>\<open>_rotate_left\<close> (lines 79-93). \<^verbatim>\<open>y = z.right\<close> fails when \<open>z\<close> is \<^verbatim>\<open>None\<close>,
  \<^verbatim>\<open>T2 = y.left\<close> fails when \<open>y\<close> is \<^verbatim>\<open>None\<close>. The height of \<open>z\<close> is recomputed
  first, then the height of \<open>y\<close>, whose left child is the updated \<open>z\<close>.
\<close>

fun rotate_left :: "node \<Rightarrow> error + node" where
  "rotate_left Absent = Inl AttributeError"
| "rotate_left (Node zv zl Absent zh) = Inl AttributeError"
| "rotate_left (Node zv zl (Node yv T2 yr yh) zh) =
     (let z = Node zv zl T2 (1 + max (get_height zl) (get_height T2));
          y = Node yv z yr (1 + max (get_height z) (get_height yr))
      in Inr y)"

text \<open>\<^verbatim>\<open>_rotate_right\<close> (lines 95-109).\<close>

fun rotate_right :: "node \<Rightarrow> error + node" where
  "rotate_right Absent = Inl AttributeError"
| "rotate_right (Node zv Absent zr zh) = Inl AttributeError"
| "rotate_right (Node zv (Node yv yl T3 yh) zr zh) =
     (let z = Node zv T3 zr (1 + max (get_height T3) (get_height zr));
          y = Node yv yl z (1 + max (get_height yl) (get_height z))
      in Inr y)"

text \<open>The attribute access \<^verbatim>\<open>n.value\<close>.\<close>

fun value_of :: "node \<Rightarrow> error + int" where
  "value_of Absent = Inl AttributeError"
| "value_of (Node v l r h) = Inr v"

text \<open>
  The conditions of lines 48, 52, 56 and 61 have the form
  \<^verbatim>\<open>b and value < n.value\<close> or \<^verbatim>\<open>b and value > n.value\<close>: Python evaluates the
  comparison, and with it the attribute access, only when \<open>b\<close> holds.
\<close>

definition and_less :: "bool \<Rightarrow> int \<Rightarrow> node \<Rightarrow> error + bool" where
  "and_less b val n =
     (if b then (case value_of n of Inl e \<Rightarrow> Inl e | Inr x \<Rightarrow> Inr (val < x))
      else Inr False)"

definition and_greater :: "bool \<Rightarrow> int \<Rightarrow> node \<Rightarrow> error + bool" where
  "and_greater b val n =
     (if b then (case value_of n of Inl e \<Rightarrow> Inl e | Inr x \<Rightarrow> Inr (val > x))
      else Inr False)"

text \<open>
  Lines 39-65 of \<^verbatim>\<open>_insert\<close>, which both descending branches run after the recursive
  call: update the height, compute the balance factor, then the four cases in the
  order of the source.
\<close>

fun rebalance :: "node \<Rightarrow> int \<Rightarrow> error + node" where
  "rebalance Absent val = Inl AttributeError"
| "rebalance (Node v l r h) val =
     (let h' = 1 + max (get_height l) (get_height r);
          nd = Node v l r h';
          balance = get_balance nd
      in
      case and_less (balance > 1) val l of
        Inl e \<Rightarrow> Inl e
      | Inr True \<Rightarrow> rotate_right nd
      | Inr False \<Rightarrow>
      (case and_greater (balance < - 1) val r of
         Inl e \<Rightarrow> Inl e
       | Inr True \<Rightarrow> rotate_left nd
       | Inr False \<Rightarrow>
       (case and_greater (balance > 1) val l of
          Inl e \<Rightarrow> Inl e
        | Inr True \<Rightarrow>
            (case rotate_left l of
               Inl e \<Rightarrow> Inl e
             | Inr l' \<Rightarrow> rotate_right (Node v l' r h'))
        | Inr False \<Rightarrow>
        (case and_less (balance < - 1) val r of
           Inl e \<Rightarrow> Inl e
         | Inr True \<Rightarrow>
             (case rotate_right r of
                Inl e \<Rightarrow> Inl e
              | Inr r' \<Rightarrow> rotate_left (Node v l r' h'))
         | Inr False \<Rightarrow> Inr nd))))"

text \<open>\<^verbatim>\<open>_insert\<close> (lines 25-65).\<close>

fun insert_rec :: "node \<Rightarrow> int \<Rightarrow> error + node" where
  "insert_rec Absent val = Inr (Node val Absent Absent 1)"
| "insert_rec (Node v l r h) val =
     (if val < v then
        (case insert_rec l val of
           Inl e \<Rightarrow> Inl e
         | Inr l' \<Rightarrow> rebalance (Node v l' r h) val)
      else if val > v then
        (case insert_rec r val of
           Inl e \<Rightarrow> Inl e
         | Inr r' \<Rightarrow> rebalance (Node v l r' h) val)
      else Inr (Node v l r h))"

text \<open>\<^verbatim>\<open>insert\<close> (lines 21-23): the root is replaced by what \<^verbatim>\<open>_insert\<close> returns.\<close>

definition insert_tree :: "AVLTree \<Rightarrow> int \<Rightarrow> error + AVLTree" where
  "insert_tree T val =
     (case insert_rec (root T) val of
        Inl e \<Rightarrow> Inl e
      | Inr n \<Rightarrow> Inr (T\<lparr>root := n\<rparr>))"

text \<open>
  \<^verbatim>\<open>_generate_edges\<close> (lines 117-125) appends to the list it is given; the model
  returns the list after the call.
\<close>

fun generate_edges_rec :: "node \<Rightarrow> (int \<times> int) list \<Rightarrow> (int \<times> int) list" where
  "generate_edges_rec Absent edges = edges"
| "generate_edges_rec (Node v l r h) edges =
     (let edges1 = (case l of
                      Absent \<Rightarrow> edges
                    | Node lv ll lr lh \<Rightarrow> generate_edges_rec l (edges @ [(v, lv)]));
          edges2 = (case r of
                      Absent \<Rightarrow> edges1
                    | Node rv rl rr rh \<Rightarrow> generate_edges_rec r (edges1 @ [(v, rv)]))
      in edges2)"

text \<open>\<^verbatim>\<open>generate_edges\<close> (lines 111-115).\<close>

definition generate_edges :: "AVLTree \<Rightarrow> (int \<times> int) list" where
  "generate_edges T = generate_edges_rec (root T) []"

text \<open>
  The caller (\<^verbatim>\<open>insert_number\<close>, line 161) calls \<^verbatim>\<open>insert\<close> once per key; a
  sequence of such calls stops at the first exception.
\<close>

fun insert_all :: "AVLTree \<Rightarrow> int list \<Rightarrow> error + AVLTree" where
  "insert_all T [] = Inr T"
| "insert_all T (k # ks) =
     (case insert_tree T k of
        Inl e \<Rightarrow> Inl e
      | Inr T' \<Rightarrow> insert_all T' ks)"

section \<open>Invariants\<close>

text \<open>The true height of a subtree: 0 for an absent one, 1 for a leaf.\<close>

fun true_height :: "node \<Rightarrow> int" where
  "true_height Absent = 0"
| "true_height (Node v l r h) = 1 + max (true_height l) (true_height r)"

fun keys :: "node \<Rightarrow> int set" where
  "keys Absent = {}"
| "keys (Node v l r h) = keys l \<union> {v} \<union> keys r"

fun inorder :: "node \<Rightarrow> int list" where
  "inorder Absent = []"
| "inorder (Node v l r h) = inorder l @ v # inorder r"

fun num_nodes :: "node \<Rightarrow> nat" where
  "num_nodes Absent = 0"
| "num_nodes (Node v l r h) = num_nodes l + 1 + num_nodes r"

text \<open>Invariant 1, BST ordering.\<close>

fun bst :: "node \<Rightarrow> bool" where
  "bst Absent = True"
| "bst (Node v l r h) =
     ((\<forall>k \<in> keys l. k < v) \<and> (\<forall>k \<in> keys r. v < k) \<and> bst l \<and> bst r)"

text \<open>Invariant 2, AVL balance.\<close>

fun balanced :: "node \<Rightarrow> bool" where
  "balanced Absent = True"
| "balanced (Node v l r h) =
     (\<bar>true_height l - true_height r\<bar> \<le> 1 \<and> balanced l \<and> balanced r)"

text \<open>Invariant 3, height correctness.\<close>

fun height_correct :: "node \<Rightarrow> bool" where
  "height_correct Absent = True"
| "height_correct (Node v l r h) =
     (h = true_height (Node v l r h) \<and> height_correct l \<and> height_correct r)"

text \<open>Invariant 4, uniqueness: no key is stored in two nodes.\<close>

definition unique_keys :: "node \<Rightarrow> bool" where
  "unique_keys t = distinct (inorder t)"

definition invariants :: "node \<Rightarrow> bool" where
  "invariants t = (bst t \<and> balanced t \<and> height_correct t \<and> unique_keys t)"

section \<open>The edge enumeration as the specification words it\<close>

text \<open>
  The pre-order enumeration of the specification: for each node, the edge to the left
  child if there is one, followed by the edges of the left subtree, then the edge to the
  right child if there is one, followed by the edges of the right subtree.
\<close>

fun preorder_edges :: "node \<Rightarrow> (int \<times> int) list" where
  "preorder_edges Absent = []"
| "preorder_edges (Node v l r h) =
     (case l of Absent \<Rightarrow> [] | Node lv ll lr lh \<Rightarrow> (v, lv) # preorder_edges l) @
     (case r of Absent \<Rightarrow> [] | Node rv rl rr rh \<Rightarrow> (v, rv) # preorder_edges r)"

text \<open>The parent-child pairs of a tree, as a set.\<close>

fun parent_child :: "node \<Rightarrow> (int \<times> int) set" where
  "parent_child Absent = {}"
| "parent_child (Node v l r h) =
     (case l of Absent \<Rightarrow> {} | Node lv ll lr lh \<Rightarrow> {(v, lv)}) \<union>
     (case r of Absent \<Rightarrow> {} | Node rv rl rr rh \<Rightarrow> {(v, rv)}) \<union>
     parent_child l \<union> parent_child r"

section \<open>Auxiliary notions for the proofs\<close>

text \<open>
  A non-empty tree leans towards \<open>val\<close> when the subtree on the side of \<open>val\<close> is
  higher by one than the other. A subtree that \<^verbatim>\<open>_insert\<close> has made higher leans
  towards the inserted key; this is what makes the key comparisons of lines 48-61
  choose the right rotation.
\<close>

fun leaning :: "node \<Rightarrow> int \<Rightarrow> bool" where
  "leaning Absent val = False"
| "leaning (Node v l r h) val =
     ((val < v \<and> true_height l = true_height r + 1) \<or>
      (v < val \<and> true_height r = true_height l + 1))"

text \<open>The mirror image of a tree: left and right exchanged at every node.\<close>

fun mirror :: "node \<Rightarrow> node" where
  "mirror Absent = Absent"
| "mirror (Node v l r h) = Node v (mirror r) (mirror l) h"

section \<open>Notions for the height bound\<close>

text \<open>The Fibonacci numbers, which bound the size of a balanced tree from below.\<close>

fun fib :: "nat \<Rightarrow> nat" where
  "fib 0 = 0"
| "fib (Suc 0) = 1"
| "fib (Suc (Suc n)) = fib n + fib (Suc n)"

text \<open>
  The keys of a tree at depth \<open>d\<close>, from left to right, and the keys of a tree level
  by level: an order in which a caller may insert them.
\<close>

fun level :: "nat \<Rightarrow> node \<Rightarrow> int list" where
  "level d Absent = []"
| "level 0 (Node v l r h) = [v]"
| "level (Suc d) (Node v l r h) = level d l @ level d r"

definition level_order :: "node \<Rightarrow> int list" where
  "level_order t = concat (map (\<lambda>d. level d t) [0..<nat (true_height t)])"

text \<open>
  \<open>grown_to d s t\<close>: the tree \<open>s\<close> has every node of \<open>t\<close> of depth below \<open>d\<close>, some
  of the nodes of depth \<open>d\<close> and no other node, with the stored heights correct for
  \<open>s\<close>. These are the trees met while the keys of \<open>t\<close> are inserted level by level.
\<close>

fun grown_to :: "nat \<Rightarrow> node \<Rightarrow> node \<Rightarrow> bool" where
  "grown_to d Absent Absent = True"
| "grown_to 0 Absent (Node v l r h) = True"
| "grown_to (Suc d) Absent (Node v l r h) = False"
| "grown_to d (Node sv sl sr sh) Absent = False"
| "grown_to 0 (Node sv sl sr sh) (Node v l r h) =
     (sv = v \<and> sl = Absent \<and> sr = Absent \<and> sh = 1)"
| "grown_to (Suc d) (Node sv sl sr sh) (Node v l r h) =
     (sv = v \<and> grown_to d sl l \<and> grown_to d sr r \<and>
      sh = 1 + max (true_height sl) (true_height sr))"

text \<open>
  The sparsest balanced tree of height \<open>h\<close>, with the keys \<open>lo, lo + 1, ...\<close> in order:
  its left subtree is the sparsest tree of height \<open>h - 1\<close>, its right subtree the one of
  height \<open>h - 2\<close>. \<open>fib_size h\<close> is its number of nodes.
\<close>

fun fib_size :: "nat \<Rightarrow> nat" where
  "fib_size 0 = 0"
| "fib_size (Suc 0) = 1"
| "fib_size (Suc (Suc h)) = fib_size (Suc h) + 1 + fib_size h"

fun fibtree :: "nat \<Rightarrow> int \<Rightarrow> node" where
  "fibtree 0 lo = Absent"
| "fibtree (Suc 0) lo = Node lo Absent Absent 1"
| "fibtree (Suc (Suc h)) lo =
     Node (lo + int (fib_size (Suc h)))
       (fibtree (Suc h) lo)
       (fibtree h (lo + int (fib_size (Suc h)) + 1))
       (int h + 2)"

section \<open>Heights, keys and in-order sequence\<close>

lemma true_height_nonneg: "0 \<le> true_height t"
  by (induction t) auto

lemma true_height_zero_iff: "true_height t = 0 \<longleftrightarrow> t = Absent"
proof (cases t)
  case Absent
  then show ?thesis by simp
next
  case (Node v l r h)
  have "0 \<le> true_height l" "0 \<le> true_height r"
    by (rule true_height_nonneg)+
  with Node show ?thesis by simp
qed

lemma get_height_correct: "height_correct t \<Longrightarrow> get_height t = true_height t"
  by (cases t) auto

lemma set_inorder: "set (inorder t) = keys t"
  by (induction t) auto

lemma length_inorder: "length (inorder t) = num_nodes t"
  by (induction t) auto

lemma bst_iff_sorted: "bst t \<longleftrightarrow> sorted_wrt (<) (inorder t)"
proof (induction t)
  case Absent
  then show ?case by simp
next
  case (Node v l r h)
  then show ?case
    by (fastforce simp: sorted_wrt_append set_inorder)
qed

lemma rotate_left_inorder: "rotate_left z = Inr y \<Longrightarrow> inorder y = inorder z"
  by (induction z rule: rotate_left.induct) (auto simp: Let_def)

lemma rotate_right_inorder: "rotate_right z = Inr y \<Longrightarrow> inorder y = inorder z"
  by (induction z rule: rotate_right.induct) (auto simp: Let_def)

lemma rebalance_inorder:
  assumes "rebalance n val = Inr t'"
  shows "inorder t' = inorder n"
proof (cases n)
  case Absent
  with assms show ?thesis by simp
next
  case (Node v l r h)
  with assms show ?thesis
    by (auto simp: Let_def and_less_def and_greater_def
        dest!: rotate_left_inorder rotate_right_inorder
        split: sum.splits bool.splits if_splits)
qed


lemma and_less_False: "and_less False val n = Inr False"
  by (simp add: and_less_def)

lemma and_greater_False: "and_greater False val n = Inr False"
  by (simp add: and_greater_def)

lemma and_less_Node: "and_less True val (Node v l r h) = Inr (val < v)"
  by (simp add: and_less_def)

lemma and_greater_Node: "and_greater True val (Node v l r h) = Inr (v < val)"
  by (simp add: and_greater_def)

lemmas and_simps = and_less_False and_greater_False and_less_Node and_greater_Node

lemma rebalance_stored_within:
  assumes "get_height l \<le> get_height r + 1" "get_height r \<le> get_height l + 1"
  shows "rebalance (Node v l r h) val = Inr (Node v l r (1 + max (get_height l) (get_height r)))"
proof -
  have "(1 < get_height l - get_height r) = False" "(get_height l - get_height r < - 1) = False"
    using assms by simp_all
  then show ?thesis
    by (simp add: Let_def and_simps split: sum.split bool.split)
qed

lemma rebalance_stored_left:
  assumes "get_height l = get_height r + 2"
  shows "rebalance (Node v l r h) val =
     (let h' = 1 + max (get_height l) (get_height r); nd = Node v l r h' in
      case and_less True val l of
        Inl e \<Rightarrow> Inl e
      | Inr True \<Rightarrow> rotate_right nd
      | Inr False \<Rightarrow>
       (case and_greater True val l of
          Inl e \<Rightarrow> Inl e
        | Inr True \<Rightarrow>
            (case rotate_left l of
               Inl e \<Rightarrow> Inl e
             | Inr l' \<Rightarrow> rotate_right (Node v l' r h'))
        | Inr False \<Rightarrow> Inr nd))"
proof -
  have "(1 < get_height l - get_height r) = True" "(get_height l - get_height r < - 1) = False"
    using assms by simp_all
  then show ?thesis
    by (simp add: Let_def and_simps split: sum.split bool.split)
qed

lemma rebalance_stored_right:
  assumes "get_height r = get_height l + 2"
  shows "rebalance (Node v l r h) val =
     (let h' = 1 + max (get_height l) (get_height r); nd = Node v l r h' in
      case and_greater True val r of
         Inl e \<Rightarrow> Inl e
       | Inr True \<Rightarrow> rotate_left nd
       | Inr False \<Rightarrow>
        (case and_less True val r of
           Inl e \<Rightarrow> Inl e
         | Inr True \<Rightarrow>
             (case rotate_right r of
                Inl e \<Rightarrow> Inl e
              | Inr r' \<Rightarrow> rotate_left (Node v l r' h'))
         | Inr False \<Rightarrow> Inr nd))"
proof -
  have "(1 < get_height l - get_height r) = False" "(get_height l - get_height r < - 1) = True"
    using assms by simp_all
  then show ?thesis
    by (simp add: Let_def and_simps split: sum.split bool.split)
qed

lemma rebalance_within:
  assumes "height_correct l" "height_correct r" "\<bar>true_height l - true_height r\<bar> \<le> 1"
  shows "rebalance (Node v l r h) val = Inr (Node v l r (1 + max (true_height l) (true_height r)))"
proof -
  have "get_height l \<le> get_height r + 1" "get_height r \<le> get_height l + 1"
    using assms by (simp_all add: get_height_correct)
  from rebalance_stored_within [OF this] assms(1,2) show ?thesis
    by (simp add: get_height_correct)
qed

lemma rebalance_left_heavy:
  assumes hc: "height_correct l" "height_correct r"
    and bal: "balanced l" "balanced r"
    and hv: "true_height l = true_height r + 2"
    and ln: "leaning l val"
  shows "\<exists>t'. rebalance (Node v l r h) val = Inr t' \<and> balanced t' \<and> height_correct t' \<and>
           true_height t' = true_height r + 2"
proof (cases l)
  case Absent
  with ln show ?thesis by simp
next
  case L: (Node lv ll lr lh)
  have lh: "lh = true_height r + 2" "get_height l = true_height r + 2"
    using hc(1) hv L by (simp_all del: true_height.simps)
  have hr: "get_height r = true_height r"
    using hc(2) by (rule get_height_correct)
  have hcs: "height_correct ll" "height_correct lr" "balanced ll" "balanced lr"
    using hc(1) bal(1) L by simp_all
  show ?thesis
  proof (cases "val < lv")
    case True
    with ln L have hh: "true_height ll = true_height lr + 1" by simp
    with hv L have hlr: "true_height lr = true_height r" by simp
    show ?thesis
      using True L lh hr hcs hh hlr hc(2) bal(2)
      by (simp add: rebalance_stored_left Let_def and_simps get_height_correct)
  next
    case False
    with ln L have gt: "lv < val" and hh: "true_height lr = true_height ll + 1" by simp_all
    with hv L have hll: "true_height ll = true_height r" by simp
    have "lr \<noteq> Absent"
      using hh true_height_nonneg [of ll] by auto
    then obtain xv xl xr xh where LR: "lr = Node xv xl xr xh"
      by (cases lr) auto
    have x: "height_correct xl" "height_correct xr" "balanced xl" "balanced xr"
      "\<bar>true_height xl - true_height xr\<bar> \<le> 1"
      "xh = 1 + max (true_height xl) (true_height xr)"
      using hcs LR by simp_all
    have "max (true_height xl) (true_height xr) = true_height r"
      using hh hll LR by simp
    with x(5) have mx: "true_height xl \<le> true_height r" "true_height xr \<le> true_height r"
      "true_height r \<le> true_height xl + 1" "true_height r \<le> true_height xr + 1"
      "max (true_height xl) (true_height xr) = true_height r"
      by linarith+
    show ?thesis
      using False gt L LR lh hr hcs(1,3) hll x mx hc(2) bal(2)
      by (simp add: rebalance_stored_left Let_def and_simps get_height_correct)
  qed
qed


lemma rebalance_right_heavy:
  assumes hc: "height_correct l" "height_correct r"
    and bal: "balanced l" "balanced r"
    and hv: "true_height r = true_height l + 2"
    and ln: "leaning r val"
  shows "\<exists>t'. rebalance (Node v l r h) val = Inr t' \<and> balanced t' \<and> height_correct t' \<and>
           true_height t' = true_height l + 2"
proof (cases r)
  case Absent
  with ln show ?thesis by simp
next
  case R: (Node rv rl rr rh)
  have rh: "rh = true_height l + 2" "get_height r = true_height l + 2"
    using hc(2) hv R by (simp_all del: true_height.simps)
  have hl: "get_height l = true_height l"
    using hc(1) by (rule get_height_correct)
  have hcs: "height_correct rl" "height_correct rr" "balanced rl" "balanced rr"
    using hc(2) bal(2) R by simp_all
  show ?thesis
  proof (cases "rv < val")
    case True
    with ln R have hh: "true_height rr = true_height rl + 1" by simp
    with hv R have hrl: "true_height rl = true_height l" by simp
    show ?thesis
      using True R rh hl hcs hh hrl hc(1) bal(1)
      by (simp add: rebalance_stored_right Let_def and_simps get_height_correct)
  next
    case False
    with ln R have lt: "val < rv" and hh: "true_height rl = true_height rr + 1" by simp_all
    with hv R have hrr: "true_height rr = true_height l" by simp
    have "rl \<noteq> Absent"
      using hh true_height_nonneg [of rr] by auto
    then obtain xv xl xr xh where RL: "rl = Node xv xl xr xh"
      by (cases rl) auto
    have x: "height_correct xl" "height_correct xr" "balanced xl" "balanced xr"
      "\<bar>true_height xl - true_height xr\<bar> \<le> 1"
      "xh = 1 + max (true_height xl) (true_height xr)"
      using hcs RL by simp_all
    have "max (true_height xl) (true_height xr) = true_height l"
      using hh hrr RL by simp
    with x(5) have mx: "true_height xl \<le> true_height l" "true_height xr \<le> true_height l"
      "true_height l \<le> true_height xl + 1" "true_height l \<le> true_height xr + 1"
      "max (true_height xl) (true_height xr) = true_height l"
      by linarith+
    show ?thesis
      using False lt R RL rh hl hcs(2,4) hrr x mx hc(1) bal(1)
      by (simp add: rebalance_stored_right Let_def and_simps get_height_correct)
  qed
qed

lemma insert_rec_avl:
  assumes "balanced t" "height_correct t"
  shows "\<exists>t'. insert_rec t val = Inr t' \<and> balanced t' \<and> height_correct t' \<and>
           (true_height t' = true_height t \<or>
            true_height t' = true_height t + 1 \<and> (t \<noteq> Absent \<longrightarrow> leaning t' val))"
  using assms
proof (induction t)
  case Absent
  show ?case by simp
next
  case (Node v l r h)
  have hc: "height_correct l" "height_correct r" and bal: "balanced l" "balanced r"
    and d: "\<bar>true_height l - true_height r\<bar> \<le> 1"
    and h: "h = 1 + max (true_height l) (true_height r)"
    using Node.prems by simp_all
  show ?case
  proof (cases "val < v")
    case lt: True
    from Node.IH(1) [OF bal(1) hc(1)] obtain l' where
      l': "insert_rec l val = Inr l'" "balanced l'" "height_correct l'"
      and g: "true_height l' = true_height l \<or>
            true_height l' = true_height l + 1 \<and> (l \<noteq> Absent \<longrightarrow> leaning l' val)"
      by blast
    have step: "insert_rec (Node v l r h) val = rebalance (Node v l' r h) val"
      using lt l'(1) by simp
    show ?thesis
    proof (cases "true_height l' = true_height r + 2")
      case heavy: True
      with g d have grown: "true_height l' = true_height l + 1" "true_height l = true_height r + 1"
        and ln0: "l \<noteq> Absent \<longrightarrow> leaning l' val"
        by auto
      have "l \<noteq> Absent"
        using grown(2) true_height_nonneg [of r] by auto
      with ln0 have ln: "leaning l' val" by simp
      from rebalance_left_heavy [OF l'(3) hc(2) l'(2) bal(2) heavy ln, of v h]
      obtain t' where t': "rebalance (Node v l' r h) val = Inr t'" "balanced t'"
        "height_correct t'" "true_height t' = true_height r + 2"
        by blast
      have "true_height t' = true_height (Node v l r h)"
        using t'(4) grown(2) by simp
      with t' step show ?thesis by simp
    next
      case False
      with g d have w: "\<bar>true_height l' - true_height r\<bar> \<le> 1" by auto
      have res: "insert_rec (Node v l r h) val =
          Inr (Node v l' r (1 + max (true_height l') (true_height r)))"
        using step rebalance_within [OF l'(3) hc(2) w] by simp
      show ?thesis
        using res l'(2,3) hc(2) bal(2) w g lt d
        by auto
    qed
  next
    case nlt: False
    show ?thesis
    proof (cases "v < val")
      case gt: True
      from Node.IH(2) [OF bal(2) hc(2)] obtain r' where
        r': "insert_rec r val = Inr r'" "balanced r'" "height_correct r'"
        and g: "true_height r' = true_height r \<or>
            true_height r' = true_height r + 1 \<and> (r \<noteq> Absent \<longrightarrow> leaning r' val)"
        by blast
      have step: "insert_rec (Node v l r h) val = rebalance (Node v l r' h) val"
        using nlt gt r'(1) by simp
      show ?thesis
      proof (cases "true_height r' = true_height l + 2")
        case heavy: True
        with g d have grown: "true_height r' = true_height r + 1" "true_height r = true_height l + 1"
          and ln0: "r \<noteq> Absent \<longrightarrow> leaning r' val"
          by auto
        have "r \<noteq> Absent"
          using grown(2) true_height_nonneg [of l] by auto
        with ln0 have ln: "leaning r' val" by simp
        from rebalance_right_heavy [OF hc(1) r'(3) bal(1) r'(2) heavy ln, of v h]
        obtain t' where t': "rebalance (Node v l r' h) val = Inr t'" "balanced t'"
          "height_correct t'" "true_height t' = true_height l + 2"
          by blast
        have "true_height t' = true_height (Node v l r h)"
          using t'(4) grown(2) by simp
        with t' step show ?thesis by simp
      next
        case False
        with g d have w: "\<bar>true_height l - true_height r'\<bar> \<le> 1" by auto
        have res: "insert_rec (Node v l r h) val =
            Inr (Node v l r' (1 + max (true_height l) (true_height r')))"
          using step rebalance_within [OF hc(1) r'(3) w] by simp
        show ?thesis
          using res r'(2,3) hc(1) bal(1) w g gt nlt d
          by auto
      qed
    next
      case False
      with nlt Node.prems show ?thesis by simp
    qed
  qed
qed


lemma insert_rec_inorder_set:
  "insert_rec t val = Inr t' \<Longrightarrow> set (inorder t') = set (inorder t) \<union> {val}"
proof (induction t arbitrary: t')
  case Absent
  then show ?case by auto
next
  case (Node v l r h)
  show ?case
  proof (cases "val < v")
    case True
    with Node.prems obtain l' where l': "insert_rec l val = Inr l'"
      and rb: "rebalance (Node v l' r h) val = Inr t'"
      by (auto split: sum.splits)
    from rebalance_inorder [OF rb] Node.IH(1) [OF l'] show ?thesis by auto
  next
    case nlt: False
    show ?thesis
    proof (cases "v < val")
      case True
      with nlt Node.prems obtain r' where r': "insert_rec r val = Inr r'"
        and rb: "rebalance (Node v l r' h) val = Inr t'"
        by (auto split: sum.splits)
      from rebalance_inorder [OF rb] Node.IH(2) [OF r'] show ?thesis by auto
    next
      case False
      with nlt Node.prems show ?thesis by auto
    qed
  qed
qed

lemma insert_rec_keys: "insert_rec t val = Inr t' \<Longrightarrow> keys t' = keys t \<union> {val}"
  using insert_rec_inorder_set [of t val t'] by (simp add: set_inorder)

lemma insert_rec_bst:
  "bst t \<Longrightarrow> insert_rec t val = Inr t' \<Longrightarrow> bst t'"
proof (induction t arbitrary: t')
  case Absent
  then show ?case by auto
next
  case (Node v l r h)
  have b: "bst l" "bst r" "\<forall>k \<in> keys l. k < v" "\<forall>k \<in> keys r. v < k"
    using Node.prems(1) by simp_all
  show ?case
  proof (cases "val < v")
    case True
    with Node.prems obtain l' where l': "insert_rec l val = Inr l'"
      and rb: "rebalance (Node v l' r h) val = Inr t'"
      by (auto split: sum.splits)
    have "bst (Node v l' r h)"
      using Node.IH(1) [OF b(1) l'] insert_rec_keys [OF l'] b True by simp
    with rebalance_inorder [OF rb] show ?thesis
      by (simp only: bst_iff_sorted)
  next
    case nlt: False
    show ?thesis
    proof (cases "v < val")
      case True
      with nlt Node.prems obtain r' where r': "insert_rec r val = Inr r'"
        and rb: "rebalance (Node v l r' h) val = Inr t'"
        by (auto split: sum.splits)
      have "bst (Node v l r' h)"
        using Node.IH(2) [OF b(2) r'] insert_rec_keys [OF r'] b True by simp
      with rebalance_inorder [OF rb] show ?thesis
        by (simp only: bst_iff_sorted)
    next
      case False
      with nlt Node.prems show ?thesis by auto
    qed
  qed
qed

lemma insert_rec_present:
  assumes "bst t" "balanced t" "height_correct t" "val \<in> keys t"
  shows "insert_rec t val = Inr t"
  using assms
proof (induction t)
  case Absent
  then show ?case by simp
next
  case (Node v l r h)
  have b: "bst l" "bst r" "\<forall>k \<in> keys l. k < v" "\<forall>k \<in> keys r. v < k"
    using Node.prems(1) by simp_all
  have hc: "height_correct l" "height_correct r" and bal: "balanced l" "balanced r"
    and d: "\<bar>true_height l - true_height r\<bar> \<le> 1"
    and h: "h = 1 + max (true_height l) (true_height r)"
    using Node.prems(2,3) by simp_all
  show ?case
  proof (cases "val < v")
    case True
    with Node.prems(4) b have "val \<in> keys l" by auto
    from Node.IH(1) [OF b(1) bal(1) hc(1) this] True
    show ?thesis
      using rebalance_within [OF hc d, of v h val] h by simp
  next
    case nlt: False
    show ?thesis
    proof (cases "v < val")
      case True
      with Node.prems(4) b have "val \<in> keys r" by auto
      from Node.IH(2) [OF b(2) bal(2) hc(2) this] True nlt
      show ?thesis
        using rebalance_within [OF hc d, of v h val] h by simp
    next
      case False
      with nlt show ?thesis by simp
    qed
  qed
qed

lemma rebalance_num_nodes: "rebalance n val = Inr t' \<Longrightarrow> num_nodes t' = num_nodes n"
  using rebalance_inorder [of n val t'] length_inorder [of t'] length_inorder [of n]
  by simp

lemma insert_rec_absent:
  "val \<notin> keys t \<Longrightarrow> insert_rec t val = Inr t' \<Longrightarrow> num_nodes t' = num_nodes t + 1"
proof (induction t arbitrary: t')
  case Absent
  then show ?case by auto
next
  case (Node v l r h)
  have nk: "val \<notin> keys l" "val \<notin> keys r" "val \<noteq> v"
    using Node.prems(1) by simp_all
  show ?case
  proof (cases "val < v")
    case True
    with Node.prems obtain l' where l': "insert_rec l val = Inr l'"
      and rb: "rebalance (Node v l' r h) val = Inr t'"
      by (auto split: sum.splits)
    from rebalance_num_nodes [OF rb] Node.IH(1) [OF nk(1) l'] show ?thesis by simp
  next
    case False
    with nk(3) have gt: "v < val" by simp
    with False Node.prems obtain r' where r': "insert_rec r val = Inr r'"
      and rb: "rebalance (Node v l r' h) val = Inr t'"
      by (auto split: sum.splits)
    from rebalance_num_nodes [OF rb] Node.IH(2) [OF nk(2) r'] show ?thesis by simp
  qed
qed

lemma bst_unique_keys: "bst t \<Longrightarrow> unique_keys t"
  by (simp add: unique_keys_def bst_iff_sorted strict_sorted_iff)

lemma insert_rec_invariants:
  assumes "invariants t"
  shows "\<exists>t'. insert_rec t val = Inr t' \<and> invariants t' \<and> keys t' = keys t \<union> {val}"
proof -
  from assms have a: "bst t" "balanced t" "height_correct t"
    by (simp_all add: invariants_def)
  from insert_rec_avl [OF a(2,3), of val] obtain t' where
    t': "insert_rec t val = Inr t'" "balanced t'" "height_correct t'"
    by blast
  from insert_rec_bst [OF a(1) t'(1)] have "bst t'" .
  with t' insert_rec_keys [OF t'(1)] show ?thesis
    by (simp add: invariants_def bst_unique_keys)
qed

section \<open>Sequences of insertions\<close>

lemma insert_tree_invariants:
  assumes "invariants (root T)"
  shows "\<exists>T'. insert_tree T k = Inr T' \<and> invariants (root T') \<and>
           keys (root T') = keys (root T) \<union> {k}"
  using insert_rec_invariants [OF assms, of k]
  by (auto simp: insert_tree_def)

lemma insert_all_invariants:
  "invariants (root T) \<Longrightarrow>
   \<exists>T'. insert_all T ks = Inr T' \<and> invariants (root T') \<and>
        keys (root T') = keys (root T) \<union> set ks"
proof (induction ks arbitrary: T)
  case Nil
  then show ?case by simp
next
  case (Cons k ks)
  from insert_tree_invariants [OF Cons.prems, of k] obtain T1 where
    T1: "insert_tree T k = Inr T1" "invariants (root T1)"
    "keys (root T1) = keys (root T) \<union> {k}"
    by blast
  from Cons.IH [OF T1(2)] obtain T' where
    "insert_all T1 ks = Inr T'" "invariants (root T')"
    "keys (root T') = keys (root T1) \<union> set ks"
    by blast
  with T1 show ?case by auto
qed

lemma invariants_init: "invariants (root AVLTree_init)"
  by (simp add: AVLTree_init_def invariants_def unique_keys_def)

lemma insert_all_inorder:
  assumes "insert_all AVLTree_init ks = Inr T"
  shows "inorder (root T) = sorted_list_of_set (set ks)"
proof -
  from insert_all_invariants [OF invariants_init, of ks] assms
  have inv: "invariants (root T)" and k: "keys (root T) = set ks"
    by (auto simp: AVLTree_init_def)
  from inv have "sorted (inorder (root T))" "distinct (inorder (root T))"
    by (simp_all add: invariants_def bst_iff_sorted strict_sorted_iff)
  from sorted_list_of_set.idem_if_sorted_distinct [OF this] k show ?thesis
    by (simp add: set_inorder)
qed

section \<open>Size of a balanced tree and its height\<close>

lemma fib_Suc_mono: "fib n \<le> fib (Suc n)"
  by (induction n rule: fib.induct) simp_all

lemma fib_mono: "m \<le> n \<Longrightarrow> fib m \<le> fib n"
  by (induction n) (auto simp: le_Suc_eq intro: order_trans [OF _ fib_Suc_mono])

lemma balanced_fib_bound:
  "balanced t \<Longrightarrow> fib (nat (true_height t) + 2) \<le> num_nodes t + 1"
proof (induction t)
  case Absent
  show ?case by (simp add: numeral_2_eq_2)
next
  case (Node v l r h)
  define hl where "hl = nat (true_height l)"
  define hr where "hr = nat (true_height r)"
  have l: "true_height l = int hl" and r: "true_height r = int hr"
    using true_height_nonneg [of l] true_height_nonneg [of r] by (simp_all add: hl_def hr_def)
  have "\<bar>int hl - int hr\<bar> \<le> 1"
    using Node.prems l r by simp
  then have d: "hl \<le> hr + 1" "hr \<le> hl + 1"
    by linarith+
  have bl: "fib (hl + 2) \<le> num_nodes l + 1" and br: "fib (hr + 2) \<le> num_nodes r + 1"
    using Node.IH Node.prems by (simp_all add: hl_def hr_def)
  have ht: "nat (true_height (Node v l r h)) = Suc (max hl hr)"
    using l r by simp
  have "fib (Suc (max hl hr) + 2) = fib (max hl hr + 1) + fib (max hl hr + 2)"
    by (simp add: numeral_2_eq_2)
  also have "\<dots> \<le> num_nodes l + 1 + (num_nodes r + 1)"
  proof (cases "hl \<le> hr")
    case True
    then have "max hl hr = hr" by simp
    moreover have "fib (hr + 1) \<le> fib (hl + 2)"
      using d by (intro fib_mono) simp
    ultimately show ?thesis using bl br by simp
  next
    case False
    then have "max hl hr = hl" by simp
    moreover have "fib (hl + 1) \<le> fib (hr + 2)"
      using d by (intro fib_mono) simp
    ultimately show ?thesis using bl br by simp
  qed
  finally show ?case
    unfolding ht by simp
qed

lemma golden_lower_power: "(161803 / 100000 :: real) ^ n \<le> real (fib (n + 2))"
proof (induction n rule: fib.induct)
  case 1
  show ?case by (simp add: numeral_2_eq_2)
next
  case 2
  show ?case by (simp add: numeral_3_eq_3)
next
  case (3 n)
  have sq: "(161803 / 100000 :: real)\<^sup>2 \<le> 161803 / 100000 + 1"
    by (simp add: power2_eq_square)
  have "(161803 / 100000 :: real) ^ Suc (Suc n) = (161803 / 100000) ^ n * (161803 / 100000)\<^sup>2"
    by (simp add: power2_eq_square)
  also have "\<dots> \<le> (161803 / 100000) ^ n * (161803 / 100000 + 1)"
    using sq by (intro mult_left_mono) simp_all
  also have "\<dots> = (161803 / 100000) ^ Suc n + (161803 / 100000) ^ n"
    by (simp add: algebra_simps)
  also have "\<dots> \<le> real (fib (Suc n + 2)) + real (fib (n + 2))"
    using "3.IH" by simp
  also have "\<dots> = real (fib (Suc (Suc n) + 2))"
    by simp
  finally show ?case .
qed

lemma power_mult_lower:
  fixes x :: real
  assumes "a \<le> x ^ i" "b \<le> x ^ j" "0 \<le> a" "0 \<le> b" "c \<le> a * b" "m = i + j"
  shows "c \<le> x ^ m"
proof -
  have "c \<le> a * b" by fact
  also have "\<dots> \<le> x ^ i * x ^ j"
    using assms(1-4) by (intro mult_mono) simp_all
  also have "\<dots> = x ^ m"
    by (simp add: assms(6) power_add)
  finally show ?thesis .
qed

lemma power_mult_upper:
  fixes x :: real
  assumes "x ^ i \<le> a" "x ^ j \<le> b" "0 \<le> x" "a * b \<le> c" "m = i + j"
  shows "x ^ m \<le> c"
proof -
  have "x ^ m = x ^ i * x ^ j"
    by (simp add: assms(5) power_add)
  also have "\<dots> \<le> a * b"
    using assms(1-3) by (intro mult_mono) (simp_all add: order_trans [OF _ assms(1)])
  also have "\<dots> \<le> c" by fact
  finally show ?thesis .
qed

lemma golden_121: "(2::real) ^ 84 \<le> (161803 / 100000) ^ 121"
proof -
  let ?r = "161803 / 100000 :: real"
  have p1: "161803 / 100000 \<le> ?r ^ 1" by simp
  have p2: "2.6180210809 \<le> ?r ^ 2"
    by (rule power_mult_lower [OF p1 p1]) simp_all
  have p4: "6.85403438003 \<le> ?r ^ 4"
    by (rule power_mult_lower [OF p2 p2]) simp_all
  have p8: "46.9777872826 \<le> ?r ^ 8"
    by (rule power_mult_lower [OF p4 p4]) simp_all
  have p16: "2206.91249796 \<le> ?r ^ 16"
    by (rule power_mult_lower [OF p8 p8]) simp_all
  have p32: "4870462.77365 \<le> ?r ^ 32"
    by (rule power_mult_lower [OF p16 p16]) simp_all
  have p64: "23721407629500 \<le> ?r ^ 64"
    by (rule power_mult_lower [OF p32 p32]) simp_all
  have p96: "115534232798000000000 \<le> ?r ^ 96"
    by (rule power_mult_lower [OF p64 p32]) simp_all
  have p112: "254973942304000000000000 \<le> ?r ^ 112"
    by (rule power_mult_lower [OF p96 p16]) simp_all
  have p120: "11978111624100000000000000 \<le> ?r ^ 120"
    by (rule power_mult_lower [OF p112 p8]) simp_all
  have "19342813113834066795298816 \<le> ?r ^ 121"
    by (rule power_mult_lower [OF p120 p1]) simp_all
  moreover have "(2::real) ^ 84 = 19342813113834066795298816"
    by simp
  ultimately show ?thesis by simp
qed

lemma golden_157: "(161804 / 100000) ^ 157 \<le> (2::real) ^ 109"
proof -
  let ?r = "161804 / 100000 :: real"
  have p1: "?r ^ 1 \<le> 161804 / 100000" by simp
  have p2: "?r ^ 2 \<le> 2.6180534416"
    by (rule power_mult_upper [OF p1 p1]) simp_all
  have p4: "?r ^ 4 \<le> 6.85420382308"
    by (rule power_mult_upper [OF p2 p2]) simp_all
  have p8: "?r ^ 8 \<le> 46.9801100484"
    by (rule power_mult_upper [OF p4 p4]) simp_all
  have p16: "?r ^ 16 \<le> 2207.13074016"
    by (rule power_mult_upper [OF p8 p8]) simp_all
  have p32: "?r ^ 32 \<le> 4871426.10416"
    by (rule power_mult_upper [OF p16 p16]) simp_all
  have p64: "?r ^ 64 \<le> 23730792288300"
    by (rule power_mult_upper [OF p32 p32]) simp_all
  have p128: "?r ^ 128 \<le> 563150502631000000000000000"
    by (rule power_mult_upper [OF p64 p64]) simp_all
  have p144: "?r ^ 144 \<le> 1242946785700000000000000000000"
    by (rule power_mult_upper [OF p128 p16]) simp_all
  have p152: "?r ^ 152 \<le> 58393776776500000000000000000000"
    by (rule power_mult_upper [OF p144 p8]) simp_all
  have p156: "?r ^ 156 \<le> 400242848026000000000000000000000"
    by (rule power_mult_upper [OF p152 p4]) simp_all
  have "?r ^ 157 \<le> 649037107316853453566312041152512"
    by (rule power_mult_upper [OF p156 p1]) simp_all
  moreover have "(2::real) ^ 109 = 649037107316853453566312041152512"
    by simp
  ultimately show ?thesis by simp
qed

lemma log2_golden: "84 / 121 \<le> log 2 (161803 / 100000 :: real)"
proof -
  have e1: "log 2 ((2::real) ^ 84) = 84"
    by (subst log_nat_power) simp_all
  have e2: "log 2 ((161803 / 100000 :: real) ^ 121) = 121 * log 2 (161803 / 100000)"
    by (subst log_nat_power) simp_all
  have "log 2 ((2::real) ^ 84) \<le> log 2 ((161803 / 100000) ^ 121)"
    using golden_121 by (subst log_le_cancel_iff) simp_all
  then have "84 \<le> 121 * log 2 (161803 / 100000 :: real)"
    by (simp only: e1 e2)
  then show ?thesis by simp
qed

lemma height_log_bound:
  assumes "balanced t"
  shows "real_of_int (true_height t) \<le> 14405 / 10000 * log 2 (real (num_nodes t) + 2)"
proof -
  define k where "k = nat (true_height t)"
  have k: "true_height t = int k"
    using true_height_nonneg [of t] by (simp add: k_def)
  have "(161803 / 100000 :: real) ^ k \<le> real (fib (k + 2))"
    by (rule golden_lower_power)
  also have "\<dots> \<le> real (num_nodes t + 1)"
    using balanced_fib_bound [OF assms] unfolding k_def [symmetric]
    by (simp only: of_nat_le_iff)
  also have "\<dots> \<le> real (num_nodes t) + 2"
    by simp
  finally have "log 2 ((161803 / 100000 :: real) ^ k) \<le> log 2 (real (num_nodes t) + 2)"
    by (subst log_le_cancel_iff) simp_all
  moreover have "log 2 ((161803 / 100000 :: real) ^ k) = real k * log 2 (161803 / 100000)"
    by (subst log_nat_power) simp_all
  ultimately
  have a: "real k * log 2 (161803 / 100000 :: real) \<le> log 2 (real (num_nodes t) + 2)"
    by simp
  have "real k * (84 / 121) \<le> real k * log 2 (161803 / 100000 :: real)"
    using log2_golden by (intro mult_left_mono) simp_all
  with a have b: "real k * (84 / 121) \<le> log 2 (real (num_nodes t) + 2)"
    by linarith
  have nn: "0 \<le> log 2 (real (num_nodes t) + 2)"
    by simp
  have "real k \<le> 121 / 84 * log 2 (real (num_nodes t) + 2)"
    using b by (simp add: field_simps)
  also have "\<dots> \<le> 14405 / 10000 * log 2 (real (num_nodes t) + 2)"
    using nn by (intro mult_right_mono) simp_all
  finally show ?thesis
    using k by simp
qed

lemma insert_all_distinct_num_nodes:
  assumes "insert_all AVLTree_init ks = Inr T" "distinct ks"
  shows "num_nodes (root T) = length ks"
proof -
  have "num_nodes (root T) = length (sorted_list_of_set (set ks))"
    using insert_all_inorder [OF assms(1)] length_inorder [of "root T"] by simp
  also have "\<dots> = length ks"
    using assms(2) by (simp add: distinct_card)
  finally show ?thesis .
qed

text \<open>
  The bound holds with the factor 1.4405 for trees of any size.
\<close>

lemma log_height_any_size:
  assumes "distinct ks" "1 \<le> length ks"
  shows "\<exists>T. insert_all AVLTree_init ks = Inr T \<and>
           real_of_int (true_height (root T)) \<le> 1.4405 * log 2 (real (length ks) + 2)"
proof -
  from insert_all_invariants [OF invariants_init, of ks] obtain T where
    T: "insert_all AVLTree_init ks = Inr T" "invariants (root T)"
    by blast
  from T(2) have "balanced (root T)"
    by (simp add: invariants_def)
  from height_log_bound [OF this] insert_all_distinct_num_nodes [OF T(1) assms(1)]
  have "real_of_int (true_height (root T)) \<le> 14405 / 10000 * log 2 (real (length ks) + 2)"
    by simp
  with T(1) show ?thesis by simp
qed

section \<open>The factor 1.44 for trees of height below 1124\<close>

text \<open>
  Powers of decimal fractions are bounded step by step, with the power of two kept
  apart, so that no large number is ever computed.
\<close>

lemma scaled_power_lower:
  fixes x :: real
  assumes "a * 2 ^ e \<le> x ^ i" "b * 2 ^ f \<le> x ^ j" "0 \<le> a" "0 \<le> b"
    "c * 2 ^ g \<le> a * b" "k = e + f + g" "m = i + j"
  shows "c * 2 ^ k \<le> x ^ m"
proof -
  have "c * 2 ^ k = (c * 2 ^ g) * 2 ^ (e + f)"
    by (simp add: assms(6) power_add)
  also have "\<dots> \<le> (a * b) * 2 ^ (e + f)"
    using assms(5) by (intro mult_right_mono) simp_all
  also have "\<dots> = (a * 2 ^ e) * (b * 2 ^ f)"
    by (simp add: power_add)
  also have "\<dots> \<le> x ^ i * x ^ j"
    using assms(1-4) by (intro mult_mono') simp_all
  also have "\<dots> = x ^ m"
    by (simp add: assms(7) power_add)
  finally show ?thesis .
qed

lemma golden_power_1125:
  "1.01547363593393 * 2 ^ 781 \<le> (1.6180339887 :: real) ^ 1125"
proof -
  let ?q = "1.6180339887 :: real"
  have p1: "1.6180339887 * 2 ^ 0 \<le> ?q ^ 1" by simp
  have p2: "1.30901699429421 * 2 ^ 1 \<le> ?q ^ 2"
    by (rule scaled_power_lower [where g = 1, OF p1 p1]) simp_all
  have p4: "1.71352549135104 * 2 ^ 2 \<le> ?q ^ 4"
    by (rule scaled_power_lower [where g = 0, OF p2 p2]) simp_all
  have p8: "1.46808480475491 * 2 ^ 5 \<le> ?q ^ 8"
    by (rule scaled_power_lower [where g = 1, OF p4 p4]) simp_all
  have p16: "1.07763649697613 * 2 ^ 11 \<le> ?q ^ 16"
    by (rule scaled_power_lower [where g = 1, OF p8 p8]) simp_all
  have p32: "1.16130041961498 * 2 ^ 22 \<le> ?q ^ 32"
    by (rule scaled_power_lower [where g = 0, OF p16 p16]) simp_all
  have p64: "1.34861866459792 * 2 ^ 44 \<le> ?q ^ 64"
    by (rule scaled_power_lower [where g = 0, OF p32 p32]) simp_all
  have p128: "1.81877230250187 * 2 ^ 88 \<le> ?q ^ 128"
    by (rule scaled_power_lower [where g = 0, OF p64 p64]) simp_all
  have p256: "1.65396634417397 * 2 ^ 177 \<le> ?q ^ 256"
    by (rule scaled_power_lower [where g = 1, OF p128 p128]) simp_all
  have p512: "1.3678023338301 * 2 ^ 355 \<le> ?q ^ 512"
    by (rule scaled_power_lower [where g = 1, OF p256 p256]) simp_all
  have p1024: "1.87088322443106 * 2 ^ 710 \<le> ?q ^ 1024"
    by (rule scaled_power_lower [where g = 0, OF p512 p512]) simp_all
  have p1088: "1.26155401787543 * 2 ^ 755 \<le> ?q ^ 1088"
    by (rule scaled_power_lower [where g = 1, OF p1024 p64]) simp_all
  have p1120: "1.4650432103257 * 2 ^ 777 \<le> ?q ^ 1120"
    by (rule scaled_power_lower [where g = 0, OF p1088 p32]) simp_all
  have p1124: "1.25519444341192 * 2 ^ 780 \<le> ?q ^ 1124"
    by (rule scaled_power_lower [where g = 1, OF p1120 p4]) simp_all
  have p1125: "1.01547363593393 * 2 ^ 781 \<le> ?q ^ 1125"
    by (rule scaled_power_lower [where g = 1, OF p1124 p1]) simp_all
  show ?thesis by (rule p1125)
qed

lemma golden_power_17:
  "(1.6180339887 :: real) ^ 16 \<le> 2206.99954580731" "(1.6180339887 :: real) ^ 17 \<le> 3571.0002781617"
proof -
  let ?q = "1.6180339887 :: real"
  have p1: "?q ^ 1 \<le> 1.6180339887" by simp
  have p2: "?q ^ 2 \<le> 2.61803398858844"
    by (rule power_mult_upper [OF p1 p1]) simp_all
  have p4: "?q ^ 4 \<le> 6.8541019654043"
    by (rule power_mult_upper [OF p2 p2]) simp_all
  have p8: "?q ^ 8 \<le> 46.9787137521591"
    by (rule power_mult_upper [OF p4 p4]) simp_all
  have p16: "?q ^ 16 \<le> 2206.99954580731"
    by (rule power_mult_upper [OF p8 p8]) simp_all
  have p17: "?q ^ 17 \<le> 3571.0002781617"
    by (rule power_mult_upper [OF p16 p1]) simp_all
  show "?q ^ 16 \<le> 2206.99954580731" by (rule p16)
  show "?q ^ 17 \<le> 3571.0002781617" by (rule p17)
qed

lemma ratio_power_36: "(1.6182 :: real) ^ 36 \<le> 2 ^ 25"
proof -
  let ?r = "1.6182 :: real"
  have p1: "?r ^ 1 \<le> 1.6182" by simp
  have p2: "?r ^ 2 \<le> 2.61857124"
    by (rule power_mult_upper [OF p1 p1]) simp_all
  have p4: "?r ^ 4 \<le> 6.85691533895514"
    by (rule power_mult_upper [OF p2 p2]) simp_all
  have p8: "?r ^ 8 \<le> 47.0172879655983"
    by (rule power_mult_upper [OF p4 p4]) simp_all
  have p16: "?r ^ 16 \<le> 2210.62536764"
    by (rule power_mult_upper [OF p8 p8]) simp_all
  have p32: "?r ^ 32 \<le> 4886864.51605349"
    by (rule power_mult_upper [OF p16 p16]) simp_all
  have p36: "?r ^ 36 \<le> 33508816.2595228"
    by (rule power_mult_upper [OF p32 p4]) simp_all
  have "(2::real) ^ 25 = 33554432" by simp
  with p36 show ?thesis by simp
qed

lemma scaled_power_36: "1 \<le> (0.45413301114692 :: real) ^ 36 * 2 ^ 41"
proof -
  let ?k = "0.45413301114692 :: real"
  have p1: "0.45413301114692 \<le> ?k ^ 1" by simp
  have p2: "0.206236791813368 \<le> ?k ^ 2"
    by (rule power_mult_lower [OF p1 p1]) simp_all
  have p4: "0.0425336142974704 \<le> ?k ^ 4"
    by (rule power_mult_lower [OF p2 p2]) simp_all
  have p8: "0.00180910834520597 \<le> ?k ^ 8"
    by (rule power_mult_lower [OF p4 p4]) simp_all
  have p16: "0.00000327287300469388 \<le> ?k ^ 16"
    by (rule power_mult_lower [OF p8 p8]) simp_all
  have p32: "0.0000000000107116977048539 \<le> ?k ^ 32"
    by (rule power_mult_lower [OF p16 p16]) simp_all
  have p36: "0.000000000000455607218649354 \<le> ?k ^ 36"
    by (rule power_mult_lower [OF p32 p4]) simp_all
  have "(1::real) \<le> 0.000000000000455607218649354 * 2 ^ 41" by simp
  also have "\<dots> \<le> ?k ^ 36 * 2 ^ 41"
    using p36 by (intro mult_right_mono) simp_all
  finally show ?thesis .
qed


lemma fib_16_17: "fib 16 = 987" "fib 17 = 1597"
  by (simp_all add: eval_nat_numeral)

lemma fib_10_11: "fib 10 = 55" "fib 11 = 89"
  by (simp_all add: eval_nat_numeral)

lemma golden_scaled_lower:
  "16 \<le> n \<Longrightarrow>
     0.447213 * (1.6180339887 :: real) ^ n \<le> real (fib n) \<and>
     0.447213 * (1.6180339887 :: real) ^ Suc n \<le> real (fib (Suc n))"
proof (induction n rule: nat_induct_at_least)
  case base
  have "0.447213 * (1.6180339887 :: real) ^ 16 \<le> 0.447213 * 2206.99954580731"
    using golden_power_17(1) by (intro mult_left_mono) simp_all
  also have "\<dots> \<le> 987" by simp
  finally have a: "0.447213 * (1.6180339887 :: real) ^ 16 \<le> real (fib 16)"
    by (simp only: fib_16_17 of_nat_numeral)
  have "0.447213 * (1.6180339887 :: real) ^ 17 \<le> 0.447213 * 3571.0002781617"
    using golden_power_17(2) by (intro mult_left_mono) simp_all
  also have "\<dots> \<le> 1597" by simp
  finally have b: "0.447213 * (1.6180339887 :: real) ^ 17 \<le> real (fib 17)"
    by (simp only: fib_16_17 of_nat_numeral)
  have "Suc 16 = 17" by simp
  with a b show ?case by (simp only:)
next
  case (Suc n)
  let ?q = "1.6180339887 :: real"
  have sq: "?q\<^sup>2 \<le> ?q + 1"
    by (simp add: power2_eq_square)
  have "0.447213 * ?q ^ Suc (Suc n) = 0.447213 * ?q ^ n * ?q\<^sup>2"
    by (simp add: power2_eq_square)
  also have "\<dots> \<le> 0.447213 * ?q ^ n * (?q + 1)"
    using sq by (intro mult_left_mono) simp_all
  also have "\<dots> = 0.447213 * ?q ^ Suc n + 0.447213 * ?q ^ n"
    by (simp add: algebra_simps)
  also have "\<dots> \<le> real (fib (Suc n)) + real (fib n)"
    using Suc.IH by (intro add_mono) simp_all
  also have "\<dots> = real (fib (Suc (Suc n)))"
    by simp
  finally show ?case
    using Suc.IH by simp
qed

lemma fib_ratio:
  "10 \<le> n \<Longrightarrow>
     10000 * fib (Suc n) \<le> 16182 * fib n \<and> 16178 * fib n \<le> 10000 * fib (Suc n)"
proof (induction n rule: nat_induct_at_least)
  case base
  have "Suc 10 = 11" by simp
  then show ?case
    by (simp only: fib_10_11) simp
next
  case (Suc n)
  then have "10000 * fib (Suc n) \<le> 16182 * fib n" "16178 * fib n \<le> 10000 * fib (Suc n)"
    by simp_all
  moreover have "fib (Suc (Suc n)) = fib n + fib (Suc n)" by simp
  ultimately show ?case by linarith
qed

lemma fib_pos: "0 < n \<Longrightarrow> 0 < fib n"
  using fib_mono [of 1 n] by simp

lemma log2_ratio: "36 * log 2 (1.6182 :: real) \<le> 25"
proof -
  have e1: "log 2 ((2::real) ^ 25) = 25"
    by (subst log_nat_power) simp_all
  have e2: "log 2 ((1.6182 :: real) ^ 36) = 36 * log 2 1.6182"
    by (subst log_nat_power) simp_all
  have "log 2 ((1.6182 :: real) ^ 36) \<le> log 2 (2 ^ 25)"
    using ratio_power_36 by (subst log_le_cancel_iff) simp_all
  then show ?thesis
    by (simp only: e1 e2)
qed

lemma log_fib_step:
  assumes "10 \<le> n"
  shows "log 2 (real (fib (Suc n))) \<le> log 2 (real (fib n)) + 25 / 36"
proof -
  have pos: "0 < real (fib n)" "0 < real (fib (Suc n))"
    using assms fib_pos [of n] fib_pos [of "Suc n"] by simp_all
  have "10000 * fib (Suc n) \<le> 16182 * fib n"
    using fib_ratio [OF assms] by simp
  then have "real (10000 * fib (Suc n)) \<le> real (16182 * fib n)"
    by (simp only: of_nat_le_iff)
  then have "real (fib (Suc n)) \<le> 1.6182 * real (fib n)"
    by simp
  then have "log 2 (real (fib (Suc n))) \<le> log 2 (1.6182 * real (fib n))"
    using pos by (subst log_le_cancel_iff) simp_all
  also have "\<dots> = log 2 1.6182 + log 2 (real (fib n))"
    using pos by (subst log_mult) simp_all
  finally show ?thesis
    using log2_ratio by linarith
qed

lemma log_fib_steps:
  "10 \<le> n \<Longrightarrow> log 2 (real (fib (n + k))) \<le> log 2 (real (fib n)) + real k * (25 / 36)"
proof (induction k)
  case 0
  show ?case by simp
next
  case (Suc k)
  have "log 2 (real (fib (Suc (n + k)))) \<le> log 2 (real (fib (n + k))) + 25 / 36"
    using Suc.prems by (intro log_fib_step) simp
  moreover have "real (Suc k) * (25 / 36) = real k * (25 / 36) + 25 / 36"
    by (simp add: algebra_simps)
  moreover have "n + Suc k = Suc (n + k)" by simp
  ultimately show ?case
    using Suc.IH [OF Suc.prems] by (simp only:)
qed

lemma log_scaled:
  fixes K y :: real
  assumes "0 < K" "K * 2 ^ e \<le> y"
  shows "log 2 K + real e \<le> log 2 y"
proof -
  have "log 2 (K * 2 ^ e) \<le> log 2 y"
    using assms by (subst log_le_cancel_iff) (simp_all add: less_le_trans [of 0 "K * 2 ^ e" y])
  moreover have "log 2 (K * 2 ^ e) = log 2 K + real e"
    using assms(1) by (simp add: log_mult log_nat_power)
  ultimately show ?thesis by simp
qed

lemma log_fib_1125: "28075 \<le> 36 * log 2 (real (fib 1125))"
proof -
  let ?K = "0.45413301114692 :: real"
  have "(16::nat) \<le> 1125" by simp
  from golden_scaled_lower [OF this]
  have a: "0.447213 * (1.6180339887 :: real) ^ 1125 \<le> real (fib 1125)" ..
  have "?K * 2 ^ 781 \<le> 0.447213 * 1.01547363593393 * (2::real) ^ 781"
    by (intro mult_right_mono) simp_all
  also have "\<dots> = 0.447213 * (1.01547363593393 * 2 ^ 781)"
    by (simp only: mult.assoc)
  also have "\<dots> \<le> 0.447213 * (1.6180339887 :: real) ^ 1125"
    using golden_power_1125 by (intro mult_left_mono) simp_all
  also note a
  finally have b: "?K * 2 ^ 781 \<le> real (fib 1125)" .
  have c: "log 2 ?K + real (781::nat) \<le> log 2 (real (fib 1125))"
    by (rule log_scaled [OF _ b]) simp
  have "log 2 (1::real) \<le> log 2 (?K ^ 36 * 2 ^ 41)"
    using scaled_power_36 by (subst log_le_cancel_iff) simp_all
  moreover have "log 2 (?K ^ 36 * 2 ^ 41) = log 2 (?K ^ 36) + log 2 ((2::real) ^ 41)"
    by (subst log_mult) simp_all
  moreover have "log 2 (?K ^ 36) = 36 * log 2 ?K"
    by (subst log_nat_power) simp_all
  moreover have "log 2 ((2::real) ^ 41) = 41"
    by (subst log_nat_power) simp_all
  ultimately have d: "- 41 \<le> 36 * log 2 ?K"
    by (simp only: log_one)
  from c d show ?thesis by simp
qed


lemma fib_small:
  "fib 2 = 1" "fib 3 = 2" "fib 4 = 3" "fib 5 = 5" "fib 6 = 8" "fib 7 = 13" "fib 8 = 21"
  "fib 9 = 34"
  by (simp_all add: eval_nat_numeral)

lemma power_log2:
  fixes y :: real
  assumes "0 < y" "2 ^ a \<le> y ^ 36"
  shows "real a \<le> 36 * log 2 y"
proof -
  have "log 2 ((2::real) ^ a) \<le> log 2 (y ^ 36)"
    using assms by (subst log_le_cancel_iff) simp_all
  moreover have "log 2 ((2::real) ^ a) = real a"
    by (subst log_nat_power) simp_all
  moreover have "log 2 (y ^ 36) = 36 * log 2 y"
    using assms(1) by (subst log_nat_power) simp_all
  ultimately show ?thesis by simp
qed

lemma small_heights:
  assumes "h < 8"
  shows "(2::real) ^ (25 * h) \<le> real (fib (h + 2)) ^ 36"
proof -
  from assms have "h = 0 \<or> h = 1 \<or> h = 2 \<or> h = 3 \<or> h = 4 \<or> h = 5 \<or> h = 6 \<or> h = 7"
    by linarith
  then show ?thesis
    by (elim disjE) (simp_all add: fib_small)
qed

lemma height_fib_log:
  assumes "h \<le> 1123"
  shows "25 * real h \<le> 36 * log 2 (real (fib (h + 2)))"
proof (cases "h < 8")
  case True
  have "0 < fib (h + 2)"
    by (rule fib_pos) simp
  then have "0 < real (fib (h + 2))"
    by (simp only: of_nat_0_less_iff)
  from power_log2 [OF this small_heights [OF True]] show ?thesis
    by simp
next
  case False
  then have n: "10 \<le> h + 2" by simp
  have "h + 2 + (1123 - h) = 1125"
    using assms by simp
  define L where "L = log 2 (real (fib (h + 2)))"
  define M where "M = log 2 (real (fib 1125))"
  from log_fib_steps [OF n, of "1123 - h"] \<open>h + 2 + (1123 - h) = 1125\<close>
  have "M \<le> L + real (1123 - h) * (25 / 36)"
    by (simp only: L_def M_def)
  moreover have "real (1123 - h) = 1123 - real h"
    using assms by (simp add: of_nat_diff)
  ultimately have "M \<le> L + (1123 - real h) * (25 / 36)"
    by (simp only:)
  moreover have "(1123 - real h) * (25 / 36) = 28075 / 36 - 25 / 36 * real h"
    by (simp add: algebra_simps)
  moreover have "28075 \<le> 36 * M"
    unfolding M_def by (rule log_fib_1125)
  ultimately have "25 * real h \<le> 36 * L"
    by linarith
  then show ?thesis
    by (simp only: L_def)
qed

section \<open>Every tree that satisfies the invariants is reached by insertions\<close>

lemma grown_to_zero_Absent: "grown_to 0 Absent t"
  by (cases t) simp_all

lemma grown_to_height_correct: "grown_to d s t \<Longrightarrow> height_correct s"
  by (induction d s t rule: grown_to.induct) simp_all

lemma grown_to_keys: "grown_to d s t \<Longrightarrow> keys s \<subseteq> keys t"
  by (induction d s t rule: grown_to.induct) auto

lemma level_keys: "set (level d t) \<subseteq> keys t"
  by (induction d t rule: level.induct) auto

lemma grown_to_height:
  "grown_to d s t \<Longrightarrow>
     true_height s \<le> true_height t \<and> true_height s \<le> int d + 1 \<and>
     (true_height t \<le> true_height s \<or> int d \<le> true_height s)"
proof (induction d s t rule: grown_to.induct)
  case (1 d)
  show ?case by simp
next
  case (2 v l r h)
  show ?case
    using true_height_nonneg [of l] true_height_nonneg [of r] by simp
next
  case (3 d v l r h)
  then show ?case by simp
next
  case (4 d sv sl sr sh)
  then show ?case by simp
next
  case (5 sv sl sr sh v l r h)
  then show ?case
    using true_height_nonneg [of l] true_height_nonneg [of r] by simp
next
  case (6 d sv sl sr sh v l r h)
  then have w: "grown_to d sl l" "grown_to d sr r" by simp_all
  from "6.IH"(1) [OF w(1)] have l: "true_height sl \<le> true_height l"
    "true_height sl \<le> int d + 1" "true_height l \<le> true_height sl \<or> int d \<le> true_height sl"
    by simp_all
  from "6.IH"(2) [OF w(2)] have r: "true_height sr \<le> true_height r"
    "true_height sr \<le> int d + 1" "true_height r \<le> true_height sr \<or> int d \<le> true_height sr"
    by simp_all
  have a: "max (true_height sl) (true_height sr) \<le> max (true_height l) (true_height r)"
    using l(1) r(1) by linarith
  have b: "max (true_height sl) (true_height sr) \<le> int d + 1"
    using l(2) r(2) by linarith
  have c: "max (true_height l) (true_height r) \<le> max (true_height sl) (true_height sr) \<or>
           int d \<le> max (true_height sl) (true_height sr)"
    using l(3) r(3) by (elim disjE) linarith+
  from a b c show ?case
    unfolding true_height.simps by (elim disjE) simp_all
qed

lemma grown_to_balanced: "grown_to d s t \<Longrightarrow> balanced t \<Longrightarrow> balanced s"
proof (induction d s t rule: grown_to.induct)
  case (6 d sv sl sr sh v l r h)
  then have w: "grown_to d sl l" "grown_to d sr r" and b: "balanced sl" "balanced sr"
    and a: "\<bar>true_height l - true_height r\<bar> \<le> 1"
    by simp_all
  from grown_to_height [OF w(1)] have l: "true_height sl \<le> true_height l"
    "true_height sl \<le> int d + 1" "true_height l \<le> true_height sl \<or> int d \<le> true_height sl"
    by simp_all
  from grown_to_height [OF w(2)] have r: "true_height sr \<le> true_height r"
    "true_height sr \<le> int d + 1" "true_height r \<le> true_height sr \<or> int d \<le> true_height sr"
    by simp_all
  have "\<bar>true_height sl - true_height sr\<bar> \<le> 1"
    using l(3) r(3) l(1,2) r(1,2) a by (elim disjE) linarith+
  with b show ?case by simp
qed simp_all

lemma grown_to_insert:
  "grown_to d s t \<Longrightarrow> bst t \<Longrightarrow> balanced t \<Longrightarrow> k \<in> set (level d t) \<Longrightarrow>
   \<exists>s'. insert_rec s k = Inr s' \<and> grown_to d s' t \<and> keys s' = keys s \<union> {k}"
proof (induction d s t arbitrary: k rule: grown_to.induct)
  case (6 d sv sl sr sh v l r h)
  have w: "sv = v" "grown_to d sl l" "grown_to d sr r"
    using "6.prems"(1) by simp_all
  have b: "bst l" "bst r" "\<forall>x \<in> keys l. x < v" "\<forall>x \<in> keys r. v < x"
    and bal: "balanced l" "balanced r"
    using "6.prems"(2,3) by simp_all
  from "6.prems"(4) have "k \<in> set (level d l) \<or> k \<in> set (level d r)" by simp
  then show ?case
  proof
    assume kl: "k \<in> set (level d l)"
    with level_keys [of d l] b(3) have lt: "k < v" by auto
    from "6.IH"(1) [OF w(2) b(1) bal(1) kl] obtain sl' where
      sl': "insert_rec sl k = Inr sl'" "grown_to d sl' l" "keys sl' = keys sl \<union> {k}"
      by blast
    let ?c = "Node v sl' sr (1 + max (true_height sl') (true_height sr))"
    have wc: "grown_to (Suc d) ?c (Node v l r h)"
      using sl'(2) w(3) by simp
    from grown_to_balanced [OF wc "6.prems"(3)]
    have "\<bar>true_height sl' - true_height sr\<bar> \<le> 1" by simp
    from rebalance_within [OF grown_to_height_correct [OF sl'(2)]
        grown_to_height_correct [OF w(3)] this, of v sh k]
    have "insert_rec (Node sv sl sr sh) k = Inr ?c"
      using lt w(1) sl'(1) by simp
    with wc sl'(3) show ?thesis
      using w(1) by auto
  next
    assume kr: "k \<in> set (level d r)"
    with level_keys [of d r] b(4) have gt: "v < k" by auto
    from "6.IH"(2) [OF w(3) b(2) bal(2) kr] obtain sr' where
      sr': "insert_rec sr k = Inr sr'" "grown_to d sr' r" "keys sr' = keys sr \<union> {k}"
      by blast
    let ?c = "Node v sl sr' (1 + max (true_height sl) (true_height sr'))"
    have wc: "grown_to (Suc d) ?c (Node v l r h)"
      using sr'(2) w(2) by simp
    from grown_to_balanced [OF wc "6.prems"(3)]
    have "\<bar>true_height sl - true_height sr'\<bar> \<le> 1" by simp
    from rebalance_within [OF grown_to_height_correct [OF w(2)]
        grown_to_height_correct [OF sr'(2)] this, of v sh k]
    have "insert_rec (Node sv sl sr sh) k = Inr ?c"
      using gt w(1) sr'(1) by simp
    with wc sr'(3) show ?thesis
      using w(1) by auto
  qed
qed auto

lemma grown_to_complete:
  "grown_to d s t \<Longrightarrow> bst t \<Longrightarrow> set (level d t) \<subseteq> keys s \<Longrightarrow> grown_to (Suc d) s t"
proof (induction d s t rule: grown_to.induct)
  case (5 sv sl sr sh v l r h)
  then show ?case by (simp add: grown_to_zero_Absent)
next
  case (6 d sv sl sr sh v l r h)
  have w: "sv = v" "grown_to d sl l" "grown_to d sr r"
    "sh = 1 + max (true_height sl) (true_height sr)"
    using "6.prems"(1) by simp_all
  have b: "bst l" "bst r" "\<forall>x \<in> keys l. x < v" "\<forall>x \<in> keys r. v < x"
    using "6.prems"(2) by simp_all
  have sub: "set (level d l) \<union> set (level d r) \<subseteq> keys sl \<union> {v} \<union> keys sr"
    using "6.prems"(3) w(1) by simp
  have "set (level d l) \<subseteq> keys sl"
  proof
    fix x assume x: "x \<in> set (level d l)"
    with level_keys [of d l] have "x \<in> keys l" by auto
    with b(3,4) grown_to_keys [OF w(3)] have "x \<noteq> v" "x \<notin> keys sr" by fastforce+
    with sub x show "x \<in> keys sl" by auto
  qed
  moreover have "set (level d r) \<subseteq> keys sr"
  proof
    fix x assume x: "x \<in> set (level d r)"
    with level_keys [of d r] have "x \<in> keys r" by auto
    with b(3,4) grown_to_keys [OF w(2)] have "x \<noteq> v" "x \<notin> keys sl" by fastforce+
    with sub x show "x \<in> keys sr" by auto
  qed
  ultimately show ?case
    using "6.IH" w b(1,2) by simp
qed simp_all

lemma grown_to_full:
  "grown_to d s t \<Longrightarrow> height_correct t \<Longrightarrow> true_height t \<le> int d \<Longrightarrow> s = t"
proof (induction d s t rule: grown_to.induct)
  case (2 v l r h)
  then show ?case
    using true_height_nonneg [of l] true_height_nonneg [of r] by simp
next
  case (5 sv sl sr sh v l r h)
  then show ?case
    using true_height_nonneg [of l] true_height_nonneg [of r] by simp
next
  case (6 d sv sl sr sh v l r h)
  then show ?case by simp
qed simp_all


lemma insert_all_append:
  "insert_all T (xs @ ys) =
     (case insert_all T xs of Inl e \<Rightarrow> Inl e | Inr T' \<Rightarrow> insert_all T' ys)"
  by (induction xs arbitrary: T) (simp_all split: sum.splits)

lemma grown_to_insert_all:
  "grown_to d (root S) t \<Longrightarrow> bst t \<Longrightarrow> balanced t \<Longrightarrow> set ks \<subseteq> set (level d t) \<Longrightarrow>
   \<exists>S'. insert_all S ks = Inr S' \<and> grown_to d (root S') t \<and>
        keys (root S') = keys (root S) \<union> set ks"
proof (induction ks arbitrary: S)
  case Nil
  then show ?case by simp
next
  case (Cons k ks)
  have k: "k \<in> set (level d t)" and ks: "set ks \<subseteq> set (level d t)"
    using Cons.prems(4) by simp_all
  from grown_to_insert [OF Cons.prems(1-3) k] obtain s' where
    s': "insert_rec (root S) k = Inr s'" "grown_to d s' t" "keys s' = keys (root S) \<union> {k}"
    by blast
  have one: "insert_tree S k = Inr (S\<lparr>root := s'\<rparr>)"
    using s'(1) by (simp add: insert_tree_def)
  have "grown_to d (root (S\<lparr>root := s'\<rparr>)) t"
    using s'(2) by simp
  from Cons.IH [OF this Cons.prems(2,3) ks] obtain S' where
    "insert_all (S\<lparr>root := s'\<rparr>) ks = Inr S'" "grown_to d (root S') t"
    "keys (root S') = keys (root (S\<lparr>root := s'\<rparr>)) \<union> set ks"
    by blast
  with one s'(3) show ?case by auto
qed

lemma insert_levels:
  assumes "bst t" "balanced t"
  shows "\<exists>S. insert_all AVLTree_init (concat (map (\<lambda>d. level d t) [0..<n])) = Inr S \<and>
           grown_to n (root S) t \<and>
           keys (root S) = set (concat (map (\<lambda>d. level d t) [0..<n]))"
proof (induction n)
  case 0
  show ?case
    by (simp add: AVLTree_init_def grown_to_zero_Absent)
next
  case (Suc n)
  then obtain S where S: "insert_all AVLTree_init (concat (map (\<lambda>d. level d t) [0..<n])) = Inr S"
    "grown_to n (root S) t" "keys (root S) = set (concat (map (\<lambda>d. level d t) [0..<n]))"
    by blast
  from grown_to_insert_all [OF S(2) assms, of "level n t"] obtain S' where
    S': "insert_all S (level n t) = Inr S'" "grown_to n (root S') t"
    "keys (root S') = keys (root S) \<union> set (level n t)"
    by auto
  have "grown_to (Suc n) (root S') t"
    using grown_to_complete [OF S'(2) assms(1)] S'(3) by simp
  moreover have "insert_all AVLTree_init (concat (map (\<lambda>d. level d t) [0..<Suc n])) = Inr S'"
    using S(1) S'(1) by (simp add: insert_all_append)
  moreover have "keys (root S') = set (concat (map (\<lambda>d. level d t) [0..<Suc n]))"
    using S(3) S'(3) by simp
  ultimately show ?case by blast
qed

lemma length_concat_levels:
  "true_height t \<le> int n \<Longrightarrow>
     length (concat (map (\<lambda>d. level d t) [0..<n])) = num_nodes t"
proof (induction t arbitrary: n)
  case Absent
  show ?case by (induction n) simp_all
next
  case (Node v l r h)
  from Node.prems true_height_nonneg [of l] true_height_nonneg [of r]
  obtain m where n: "n = Suc m"
    by (cases n) auto
  have hm: "true_height l \<le> int m" "true_height r \<le> int m"
    using Node.prems n by simp_all
  have split: "length (concat (map (\<lambda>d. level d l @ level d r) xs)) =
      length (concat (map (\<lambda>d. level d l) xs)) + length (concat (map (\<lambda>d. level d r) xs))"
    for xs
    by (induction xs) simp_all
  have "[0..<Suc m] = 0 # map Suc [0..<m]"
    by (simp add: upt_conv_Cons map_Suc_upt del: upt_Suc)
  then have "concat (map (\<lambda>d. level d (Node v l r h)) [0..<Suc m]) =
      v # concat (map (\<lambda>d. level d l @ level d r) [0..<m])"
    by (simp add: comp_def del: upt_Suc)
  then show ?case
    using Node.IH(1) [OF hm(1)] Node.IH(2) [OF hm(2)] split [of "[0..<m]"] n by simp
qed

lemma level_order_reaches:
  assumes "bst t" "balanced t" "height_correct t"
  shows "insert_all AVLTree_init (level_order t) = Inr \<lparr>root = t\<rparr> \<and>
         distinct (level_order t) \<and> length (level_order t) = num_nodes t"
proof -
  from insert_levels [OF assms(1,2), of "nat (true_height t)"] obtain S where
    S: "insert_all AVLTree_init (level_order t) = Inr S"
    "grown_to (nat (true_height t)) (root S) t" "keys (root S) = set (level_order t)"
    by (auto simp: level_order_def)
  have "root S = t"
    using grown_to_full [OF S(2) assms(3)] true_height_nonneg [of t] by simp
  then have St: "S = \<lparr>root = t\<rparr>"
    by (cases S) simp
  have len: "length (level_order t) = num_nodes t"
    unfolding level_order_def
    using true_height_nonneg [of t] by (intro length_concat_levels) simp
  have "distinct (inorder t)"
    using assms(1) by (simp add: bst_iff_sorted strict_sorted_iff)
  then have "card (keys t) = num_nodes t"
    using distinct_card [of "inorder t"] by (simp add: set_inorder length_inorder)
  with S(3) \<open>root S = t\<close> len have "card (set (level_order t)) = length (level_order t)"
    by simp
  then have "distinct (level_order t)"
    by (rule card_distinct)
  with S(1) St len show ?thesis by simp
qed

section \<open>The sparsest balanced trees\<close>

lemma fib_size_fib: "fib_size h + 1 = fib (h + 2)"
  by (induction h rule: fib_size.induct) (simp_all add: numeral_2_eq_2)

lemma num_nodes_fibtree: "num_nodes (fibtree h lo) = fib_size h"
  by (induction h lo rule: fibtree.induct) simp_all

lemma true_height_fibtree: "true_height (fibtree h lo) = int h"
  by (induction h lo rule: fibtree.induct) simp_all

lemma height_correct_fibtree: "height_correct (fibtree h lo)"
  by (induction h lo rule: fibtree.induct) (simp_all add: true_height_fibtree)

lemma balanced_fibtree: "balanced (fibtree h lo)"
  by (induction h lo rule: fibtree.induct) (simp_all add: true_height_fibtree)

lemma keys_fibtree: "keys (fibtree h lo) = {lo ..< lo + int (fib_size h)}"
proof (induction h lo rule: fibtree.induct)
  case (1 lo)
  show ?case by simp
next
  case (2 lo)
  show ?case by auto
next
  case (3 h lo)
  show ?case
    unfolding fibtree.simps keys.simps "3.IH" fib_size.simps
    by auto
qed

lemma bst_fibtree: "bst (fibtree h lo)"
proof (induction h lo rule: fibtree.induct)
  case (3 h lo)
  then show ?case
    by (simp add: keys_fibtree)
qed simp_all

lemma golden_upper_power: "real (fib (Suc n)) \<le> (161804 / 100000) ^ n"
proof (induction n rule: fib.induct)
  case 1
  show ?case by simp
next
  case 2
  show ?case by simp
next
  case (3 n)
  have sq: "161804 / 100000 + 1 \<le> (161804 / 100000 :: real)\<^sup>2"
    by (simp add: power2_eq_square)
  have "real (fib (Suc (Suc (Suc n)))) = real (fib (Suc n)) + real (fib (Suc (Suc n)))"
    by simp
  also have "\<dots> \<le> (161804 / 100000) ^ n + (161804 / 100000) ^ Suc n"
    using "3.IH" by simp
  also have "\<dots> = (161804 / 100000) ^ n * (161804 / 100000 + 1)"
    by (simp add: algebra_simps)
  also have "\<dots> \<le> (161804 / 100000) ^ n * (161804 / 100000)\<^sup>2"
    using sq by (intro mult_left_mono) simp_all
  also have "\<dots> = (161804 / 100000) ^ Suc (Suc n)"
    by (simp add: power2_eq_square)
  finally show ?case .
qed

lemma fib_upper_power2: "real (fib (Suc (157 * m))) \<le> 2 ^ (109 * m)"
proof -
  have "real (fib (Suc (157 * m))) \<le> (161804 / 100000) ^ (157 * m)"
    by (rule golden_upper_power)
  also have "\<dots> = ((161804 / 100000 :: real) ^ 157) ^ m"
    by (rule power_mult)
  also have "\<dots> \<le> ((2::real) ^ 109) ^ m"
    using golden_157 by (intro power_mono) simp_all
  also have "\<dots> = 2 ^ (109 * m)"
    by (rule power_mult [symmetric])
  finally show ?thesis .
qed

lemma fib_log_upper:
  assumes "61 < m"
  shows "1.44 * log 2 (real (fib (Suc (157 * m))) + 1) < real (157 * m) - 1"
proof -
  have "real (fib (Suc (157 * m))) + 1 \<le> 2 ^ (109 * m) + 1"
    using fib_upper_power2 [of m] by simp
  also have "\<dots> \<le> (2::real) ^ (109 * m) + 2 ^ (109 * m)"
    by simp
  also have "\<dots> = 2 ^ Suc (109 * m)"
    by simp
  finally have "log 2 (real (fib (Suc (157 * m))) + 1) \<le> log 2 (2 ^ Suc (109 * m))"
    by (subst log_le_cancel_iff) (simp_all add: add_pos_nonneg)
  also have "\<dots> = real (Suc (109 * m))"
    by (subst log_nat_power) simp_all
  finally have "1.44 * log 2 (real (fib (Suc (157 * m))) + 1) \<le> 1.44 * real (Suc (109 * m))"
    by simp
  also have "\<dots> < real (157 * m) - 1"
    using assms by simp
  finally show ?thesis .
qed

lemma fibtree_exceeds:
  assumes "61 < m"
  shows "distinct (level_order (fibtree (157 * m - 1) 0)) \<and>
         1 \<le> length (level_order (fibtree (157 * m - 1) 0)) \<and>
         insert_all AVLTree_init (level_order (fibtree (157 * m - 1) 0)) =
           Inr \<lparr>root = fibtree (157 * m - 1) 0\<rparr> \<and>
         true_height (fibtree (157 * m - 1) 0) = int (157 * m - 1) \<and>
         1.44 * log 2 (real (length (level_order (fibtree (157 * m - 1) 0))) + 2)
           < real_of_int (true_height (fibtree (157 * m - 1) 0))"
proof -
  define H where "H = 157 * m - 1"
  have H: "Suc H = 157 * m" "H + 2 = Suc (157 * m)"
    using assms by (simp_all add: H_def)
  let ?t = "fibtree H 0"
  from level_order_reaches [OF bst_fibtree balanced_fibtree height_correct_fibtree, of H 0]
  have r: "insert_all AVLTree_init (level_order ?t) = Inr \<lparr>root = ?t\<rparr>"
    "distinct (level_order ?t)" "length (level_order ?t) = fib_size H"
    by (simp_all add: num_nodes_fibtree)
  have f: "fib_size H + 1 = fib (Suc (157 * m))"
    using fib_size_fib [of H] by (simp only: H(2))
  have "0 < fib (Suc (157 * m))"
    using fib_mono [of 1 "Suc (157 * m)"] by simp
  with f have pos: "1 \<le> fib_size H" 
    using fib_mono [of 3 "Suc (157 * m)"] assms by (simp add: numeral_3_eq_3)
  have eq: "real (fib_size H) + 2 = real (fib (Suc (157 * m))) + 1"
    using f by (simp add: of_nat_add [symmetric] del: of_nat_add fib.simps)
  have "1.44 * log 2 (real (length (level_order ?t)) + 2) < real (157 * m) - 1"
    unfolding r(3) eq by (rule fib_log_upper [OF assms])
  also have "\<dots> = real_of_int (true_height ?t)"
    using H(1) by (simp add: true_height_fibtree of_nat_diff H_def)
  finally show ?thesis
    using r pos by (simp add: H_def true_height_fibtree)
qed

text \<open>
  Without a limit on the size the factor 1.44 is too small, since the factor of the AVL
  bound is \<open>1 / log\<^sub>2 \<phi> = 1.44042...\<close>: the sparsest balanced tree of height 15699,
  whose number of keys has 3281 digits, is higher than \<open>1.44 * log\<^sub>2 (n + 2)\<close>.
\<close>

lemma sparsest_tree_exceeds:
  "distinct (level_order (fibtree 15699 0)) \<and>
   1 \<le> length (level_order (fibtree 15699 0)) \<and>
   insert_all AVLTree_init (level_order (fibtree 15699 0)) = Inr \<lparr>root = fibtree 15699 0\<rparr> \<and>
   true_height (fibtree 15699 0) = 15699 \<and>
   \<not> real_of_int (true_height (fibtree 15699 0))
       \<le> 1.44 * log 2 (real (length (level_order (fibtree 15699 0))) + 2)"
proof -
  have m: "(61::nat) < 100" by simp
  have e: "157 * 100 - 1 = (15699::nat)" by simp
  from fibtree_exceeds [OF m] show ?thesis
    unfolding e by simp
qed

text \<open>
  The sparsest tree of height 4 and the insertion of its keys level by level, evaluated.
\<close>

lemma level_order_fibtree_example:
  "fibtree 4 0 =
     Node 4 (Node 2 (Node 1 (Node 0 Absent Absent 1) Absent 2) (Node 3 Absent Absent 1) 3)
            (Node 6 (Node 5 Absent Absent 1) Absent 2) 4 \<and>
   level_order (fibtree 4 0) = [4, 2, 6, 1, 3, 5, 0] \<and>
   insert_all AVLTree_init [4, 2, 6, 1, 3, 5, 0] = Inr \<lparr>root = fibtree 4 0\<rparr>"
proof -
  have t: "fibtree 4 0 =
     Node 4 (Node 2 (Node 1 (Node 0 Absent Absent 1) Absent 2) (Node 3 Absent Absent 1) 3)
            (Node 6 (Node 5 Absent Absent 1) Absent 2) 4"
    by (simp add: eval_nat_numeral)
  have l: "level_order (fibtree 4 0) = [4, 2, 6, 1, 3, 5, 0]"
    unfolding t by (simp add: level_order_def eval_nat_numeral upt_rec)
  have i: "insert_all AVLTree_init [4, 2, 6, 1, 3, 5, 0] = Inr \<lparr>root = fibtree 4 0\<rparr>"
    unfolding t by (simp add: AVLTree_init_def insert_tree_def and_less_def and_greater_def)
  from t l i show ?thesis by blast
qed

section \<open>Rotations\<close>

lemma get_height_mirror: "get_height (mirror t) = get_height t"
  by (cases t) simp_all

lemma mirror_mirror: "mirror (mirror t) = t"
  by (induction t) simp_all

lemma rotate_right_mirror: "rotate_right z = map_sum id mirror (rotate_left (mirror z))"
proof (induction z rule: rotate_right.induct)
  case 1
  show ?case by simp
next
  case (2 zv zr zh)
  show ?case by simp
next
  case (3 zv yv yl T3 yh zr zh)
  show ?case
    by (simp add: Let_def get_height_mirror mirror_mirror max.commute)
qed

lemma rotate_left_mirror: "rotate_left z = map_sum id mirror (rotate_right (mirror z))"
proof (induction z rule: rotate_left.induct)
  case 1
  show ?case by simp
next
  case (2 zv zl zh)
  show ?case by simp
next
  case (3 zv zl yv T2 yr yh zh)
  show ?case
    by (simp add: Let_def get_height_mirror mirror_mirror max.commute)
qed

lemma rotate_left_bst: "bst z \<Longrightarrow> rotate_left z = Inr y \<Longrightarrow> bst y"
  using rotate_left_inorder [of z y] by (simp add: bst_iff_sorted)

lemma rotate_right_bst: "bst z \<Longrightarrow> rotate_right z = Inr y \<Longrightarrow> bst y"
  using rotate_right_inorder [of z y] by (simp add: bst_iff_sorted)

section \<open>Edge enumeration\<close>

lemma generate_edges_rec_append:
  "generate_edges_rec t edges = edges @ preorder_edges t"
proof (induction t arbitrary: edges)
  case Absent
  show ?case by simp
next
  case (Node v l r h)
  have L: "(case l of Absent \<Rightarrow> es
            | Node lv ll lr lh \<Rightarrow> generate_edges_rec l (es @ [(v, lv)])) =
           es @ (case l of Absent \<Rightarrow> [] | Node lv ll lr lh \<Rightarrow> (v, lv) # preorder_edges l)"
    for es
    unfolding Node.IH(1) by (cases l) simp_all
  have R: "(case r of Absent \<Rightarrow> es
            | Node rv rl rr rh \<Rightarrow> generate_edges_rec r (es @ [(v, rv)])) =
           es @ (case r of Absent \<Rightarrow> [] | Node rv rl rr rh \<Rightarrow> (v, rv) # preorder_edges r)"
    for es
    unfolding Node.IH(2) by (cases r) simp_all
  show ?case
    unfolding generate_edges_rec.simps preorder_edges.simps Let_def L R
    by simp
qed

lemma set_preorder_edges: "set (preorder_edges t) = parent_child t"
proof (induction t)
  case Absent
  show ?case by simp
next
  case (Node v l r h)
  have "set (case l of Absent \<Rightarrow> [] | Node lv ll lr lh \<Rightarrow> (v, lv) # preorder_edges l) =
        (case l of Absent \<Rightarrow> {} | Node lv ll lr lh \<Rightarrow> {(v, lv)}) \<union> parent_child l"
    unfolding Node.IH(1) [symmetric] by (cases l) simp_all
  moreover
  have "set (case r of Absent \<Rightarrow> [] | Node rv rl rr rh \<Rightarrow> (v, rv) # preorder_edges r) =
        (case r of Absent \<Rightarrow> {} | Node rv rl rr rh \<Rightarrow> {(v, rv)}) \<union> parent_child r"
    unfolding Node.IH(2) [symmetric] by (cases r) simp_all
  ultimately show ?case
    unfolding preorder_edges.simps parent_child.simps set_append
    by blast
qed

lemma length_preorder_edges:
  "int (length (preorder_edges t)) = (if t = Absent then 0 else int (num_nodes t) - 1)"
proof (induction t)
  case Absent
  show ?case by simp
next
  case (Node v l r h)
  have "int (length (case l of Absent \<Rightarrow> []
                     | Node lv ll lr lh \<Rightarrow> (v, lv) # preorder_edges l)) = int (num_nodes l)"
  proof (cases l)
    case Absent
    then show ?thesis by simp
  next
    case (Node lv ll lr lh)
    with Node.IH(1) have "int (length (preorder_edges l)) = int (num_nodes l) - 1"
      by simp
    with Node show ?thesis
      by (simp del: preorder_edges.simps num_nodes.simps)
  qed
  moreover
  have "int (length (case r of Absent \<Rightarrow> []
                     | Node rv rl rr rh \<Rightarrow> (v, rv) # preorder_edges r)) = int (num_nodes r)"
  proof (cases r)
    case Absent
    then show ?thesis by simp
  next
    case (Node rv rl rr rh)
    with Node.IH(2) have "int (length (preorder_edges r)) = int (num_nodes r) - 1"
      by simp
    with Node show ?thesis
      by (simp del: preorder_edges.simps num_nodes.simps)
  qed
  ultimately show ?case
    unfolding preorder_edges.simps length_append
    by simp
qed

lemma num_nodes_zero_iff: "num_nodes t = 0 \<longleftrightarrow> t = Absent"
  by (cases t) simp_all

section \<open>Claims about insertion\<close>

text \<open>
  C1: for every sequence of keys inserted into the initially empty tree, after each
  insertion (that is, for every prefix of the sequence) the call sequence returns a tree
  that satisfies BST ordering, AVL balance, height correctness (the stored height of
  every node is the true height, 0 for an absent subtree and 1 for a leaf) and
  uniqueness of keys.
\<close>

theorem insert_preserves_invariants:
  "\<forall>n \<le> length ks. \<exists>T. insert_all AVLTree_init (take n ks) = Inr T \<and>
      bst (root T) \<and> balanced (root T) \<and> height_correct (root T) \<and> unique_keys (root T)"
proof (intro allI impI)
  fix n
  from insert_all_invariants [OF invariants_init, of "take n ks"]
  show "\<exists>T. insert_all AVLTree_init (take n ks) = Inr T \<and>
      bst (root T) \<and> balanced (root T) \<and> height_correct (root T) \<and> unique_keys (root T)"
    by (auto simp: invariants_def)
qed

theorem insert_preserves_invariants_witness:
  "(2::nat) \<le> length [10, 20, 30 :: int] \<and>
   insert_all AVLTree_init (take 2 [10, 20, 30]) =
     Inr \<lparr>root = Node 10 Absent (Node 20 Absent Absent 1) 2\<rparr> \<and>
   bst (Node 10 Absent (Node 20 Absent Absent 1) 2) \<and>
   balanced (Node 10 Absent (Node 20 Absent Absent 1) 2) \<and>
   height_correct (Node 10 Absent (Node 20 Absent Absent 1) 2) \<and>
   unique_keys (Node 10 Absent (Node 20 Absent Absent 1) 2)"
  using insert_preserves_invariants [of "[10, 20, 30]", rule_format, of 2]
  by (auto simp: AVLTree_init_def insert_tree_def and_less_def and_greater_def)

text \<open>
  C2: on a tree that satisfies the invariants, \<open>insert_tree\<close> raises no error and the
  key set becomes the old one plus \<open>k\<close>; when \<open>k\<close> is present the tree is returned
  unchanged, when it is absent the tree has one node more, and no key is stored twice.
\<close>

theorem insert_key_set:
  assumes "invariants (root T)"
  shows "\<exists>T'. insert_tree T k = Inr T' \<and>
           keys (root T') = keys (root T) \<union> {k} \<and>
           (k \<in> keys (root T) \<longrightarrow> T' = T) \<and>
           (k \<notin> keys (root T) \<longrightarrow> num_nodes (root T') = num_nodes (root T) + 1) \<and>
           unique_keys (root T')"
proof -
  from insert_rec_invariants [OF assms, of k] obtain t' where
    t': "insert_rec (root T) k = Inr t'" "invariants t'" "keys t' = keys (root T) \<union> {k}"
    by blast
  have one: "insert_tree T k = Inr (T\<lparr>root := t'\<rparr>)"
    using t'(1) by (simp add: insert_tree_def)
  have "t' = root T" if "k \<in> keys (root T)"
    using insert_rec_present [of "root T" k] that assms t'(1)
    by (simp add: invariants_def)
  moreover have "num_nodes t' = num_nodes (root T) + 1" if "k \<notin> keys (root T)"
    using insert_rec_absent [OF that t'(1)] .
  ultimately show ?thesis
    using one t'(2,3) by (auto simp: invariants_def)
qed

theorem insert_key_set_witness:
  "invariants (root \<lparr>root = Node 5 Absent Absent 1\<rparr>) \<and>
   insert_tree \<lparr>root = Node 5 Absent Absent 1\<rparr> 5 = Inr \<lparr>root = Node 5 Absent Absent 1\<rparr> \<and>
   insert_tree \<lparr>root = Node 5 Absent Absent 1\<rparr> 7 =
     Inr \<lparr>root = Node 5 Absent (Node 7 Absent Absent 1) 2\<rparr> \<and>
   keys (Node 5 Absent (Node 7 Absent Absent 1) 2) = keys (Node 5 Absent Absent 1) \<union> {7}"
proof -
  have i: "invariants (root \<lparr>root = Node 5 Absent Absent 1\<rparr>)"
    by (simp add: invariants_def unique_keys_def)
  from insert_key_set [OF i, of 5] insert_key_set [OF i, of 7] i show ?thesis
    by (auto simp: insert_tree_def and_less_def and_greater_def)
qed

text \<open>
  C3: insertion is idempotent. On a tree that satisfies the invariants, inserting
  \<open>k\<close> a second time returns the very tree (same nodes, keys and stored heights) that
  the first insertion returned. Inserting 5 and 5 into the empty tree leaves the single
  node 5, and \<open>generate_edges\<close> returns the empty list.
\<close>

theorem insert_idempotent:
  assumes "invariants (root T)"
  shows "(\<exists>T1. insert_tree T k = Inr T1 \<and> insert_tree T1 k = Inr T1 \<and>
            insert_all T [k, k] = Inr T1 \<and> insert_all T [k] = Inr T1) \<and>
         insert_all AVLTree_init [5, 5] = Inr \<lparr>root = Node 5 Absent Absent 1\<rparr> \<and>
         num_nodes (Node 5 Absent Absent 1) = 1 \<and>
         generate_edges \<lparr>root = Node 5 Absent Absent 1\<rparr> = []"
proof -
  from insert_rec_invariants [OF assms, of k] obtain t' where
    t': "insert_rec (root T) k = Inr t'" "invariants t'" "keys t' = keys (root T) \<union> {k}"
    by blast
  have again: "insert_rec t' k = Inr t'"
    using insert_rec_present [of t' k] t'(2,3) by (simp add: invariants_def)
  have "insert_tree T k = Inr (T\<lparr>root := t'\<rparr>)"
    using t'(1) by (simp add: insert_tree_def)
  moreover have "insert_tree (T\<lparr>root := t'\<rparr>) k = Inr (T\<lparr>root := t'\<rparr>)"
    using again by (simp add: insert_tree_def)
  ultimately have "\<exists>T1. insert_tree T k = Inr T1 \<and> insert_tree T1 k = Inr T1 \<and>
            insert_all T [k, k] = Inr T1 \<and> insert_all T [k] = Inr T1"
    by simp
  moreover have "insert_all AVLTree_init [5, 5] = Inr \<lparr>root = Node 5 Absent Absent 1\<rparr>"
    by (simp add: AVLTree_init_def insert_tree_def)
  moreover have "generate_edges \<lparr>root = Node 5 Absent Absent 1\<rparr> = []"
    by (simp add: generate_edges_def)
  ultimately show ?thesis by simp
qed

theorem insert_idempotent_witness:
  "invariants (root \<lparr>root = Node 10 Absent (Node 20 Absent Absent 1) 2\<rparr>) \<and>
   insert_all \<lparr>root = Node 10 Absent (Node 20 Absent Absent 1) 2\<rparr> [30, 30] =
   insert_all \<lparr>root = Node 10 Absent (Node 20 Absent Absent 1) 2\<rparr> [30]"
proof -
  have i: "invariants (root \<lparr>root = Node 10 Absent (Node 20 Absent Absent 1) 2\<rparr>)"
    by (simp add: invariants_def unique_keys_def)
  from insert_idempotent [OF i, of 30] i show ?thesis
    by auto
qed

text \<open>
  C6: for distinct keys, inserting one permutation of them and inserting another into
  empty trees gives trees with the same in-order key sequence, which is the sorted
  sequence of the key set; the shapes may differ, as they do for 1, 2 and 2, 1.
\<close>

theorem insert_order_insensitive:
  assumes "distinct ks" "mset ks' = mset ks"
  shows "(\<exists>T T'. insert_all AVLTree_init ks = Inr T \<and> insert_all AVLTree_init ks' = Inr T' \<and>
            inorder (root T) = sorted_list_of_set (set ks) \<and>
            inorder (root T') = inorder (root T)) \<and>
         insert_all AVLTree_init [1, 2] \<noteq> insert_all AVLTree_init [2, 1]"
proof -
  from insert_all_invariants [OF invariants_init, of ks] obtain T where
    T: "insert_all AVLTree_init ks = Inr T" by blast
  from insert_all_invariants [OF invariants_init, of ks'] obtain T' where
    T': "insert_all AVLTree_init ks' = Inr T'" by blast
  have "set ks' = set ks"
    using assms(2) by (rule mset_eq_setD)
  with insert_all_inorder [OF T] insert_all_inorder [OF T']
  have "inorder (root T) = sorted_list_of_set (set ks)" "inorder (root T') = inorder (root T)"
    by simp_all
  moreover have "insert_all AVLTree_init [1, 2] \<noteq> insert_all AVLTree_init [2, 1]"
    by (simp add: AVLTree_init_def insert_tree_def and_less_def and_greater_def)
  ultimately show ?thesis using T T' by blast
qed

theorem insert_order_insensitive_witness:
  "distinct [10, 20, 30 :: int] \<and> mset [30, 10, 20] = mset [10, 20, 30 :: int] \<and>
   (\<exists>T T'. insert_all AVLTree_init [10, 20, 30] = Inr T \<and>
      insert_all AVLTree_init [30, 10, 20] = Inr T' \<and>
      inorder (root T) = [10, 20, 30] \<and> inorder (root T') = [10, 20, 30])"
proof -
  have d: "distinct [10, 20, 30 :: int]" by simp
  have m: "mset [30, 10, 20] = mset [10, 20, 30 :: int]" by simp
  have s: "sorted_list_of_set (set [10, 20, 30 :: int]) = [10, 20, 30]"
    by (simp add: sorted_list_of_set.idem_if_sorted_distinct)
  from insert_order_insensitive [OF d m] d m s show ?thesis
    by auto
qed

section \<open>Claim about the height\<close>

text \<open>
  C7: for every \<open>n \<ge> 1\<close> and every sequence of \<open>n\<close> distinct keys inserted into the
  initially empty tree, the height of the final tree (the number of nodes on its longest
  path from the root to a leaf) is at most \<open>1.44 * log\<^sub>2 (n + 2)\<close>. It is proved for
  every sequence of fewer than \<open>fib 1126 - 1\<close> keys (about \<open>9.3 * 10\<^sup>2\<^sup>3\<^sup>4\<close>), which
  are the sequences whose tree has a height below 1124. These are all the sequences a
  run of the program can insert: \<^verbatim>\<open>_insert\<close> uses one Python stack frame for each
  level of the tree, and the nodes have to fit into memory.
\<close>

theorem height_bound:
  assumes "distinct ks" "1 \<le> length ks" "length ks + 1 < fib 1126"
  shows "\<exists>T. insert_all AVLTree_init ks = Inr T \<and>
           real_of_int (true_height (root T)) \<le> 1.44 * log 2 (real (length ks) + 2)"
proof -
  from insert_all_invariants [OF invariants_init, of ks] obtain T where
    T: "insert_all AVLTree_init ks = Inr T" "invariants (root T)"
    by blast
  from T(2) have bal: "balanced (root T)"
    by (simp add: invariants_def)
  define h where "h = nat (true_height (root T))"
  have ht: "true_height (root T) = int h"
    using true_height_nonneg [of "root T"] by (simp add: h_def)
  have n: "num_nodes (root T) = length ks"
    by (rule insert_all_distinct_num_nodes [OF T(1) assms(1)])
  have f: "fib (h + 2) \<le> length ks + 1"
    using balanced_fib_bound [OF bal] n by (simp add: h_def)
  have "h + 2 < 1126"
  proof (rule ccontr)
    assume "\<not> h + 2 < 1126"
    then have "fib 1126 \<le> fib (h + 2)"
      by (intro fib_mono) simp
    with f assms(3) show False by linarith
  qed
  then have "h \<le> 1123" by simp
  from height_fib_log [OF this]
  have a: "25 * real h \<le> 36 * log 2 (real (fib (h + 2)))" .
  have "0 < fib (h + 2)"
    by (rule fib_pos) simp
  then have "0 < real (fib (h + 2))"
    by (simp only: of_nat_0_less_iff)
  moreover have "real (fib (h + 2)) \<le> real (length ks) + 2"
    using f by (simp add: of_nat_le_iff [symmetric, of "fib (h + 2)"] del: of_nat_le_iff)
  ultimately have "log 2 (real (fib (h + 2))) \<le> log 2 (real (length ks) + 2)"
    by (subst log_le_cancel_iff) simp_all
  with a have "real h \<le> 1.44 * log 2 (real (length ks) + 2)"
    by simp
  with T(1) ht show ?thesis
    by auto
qed

theorem height_bound_witness:
  "distinct [10, 20, 30 :: int] \<and> 1 \<le> length [10, 20, 30 :: int] \<and>
   length [10, 20, 30 :: int] + 1 < fib 1126 \<and>
   insert_all AVLTree_init [10, 20, 30] =
     Inr \<lparr>root = Node 20 (Node 10 Absent Absent 1) (Node 30 Absent Absent 1) 2\<rparr> \<and>
   real_of_int (true_height (Node 20 (Node 10 Absent Absent 1) (Node 30 Absent Absent 1) 2))
     \<le> 1.44 * log 2 (real (length [10, 20, 30 :: int]) + 2)"
proof -
  have d: "distinct [10, 20, 30 :: int]" and n: "1 \<le> length [10, 20, 30 :: int]"
    by simp_all
  have "fib 5 \<le> fib 1126"
    by (rule fib_mono) simp
  then have s: "length [10, 20, 30 :: int] + 1 < fib 1126"
    by (simp add: fib_small)
  have e: "insert_all AVLTree_init [10, 20, 30] =
     Inr \<lparr>root = Node 20 (Node 10 Absent Absent 1) (Node 30 Absent Absent 1) 2\<rparr>"
    by (simp add: AVLTree_init_def insert_tree_def and_less_def and_greater_def)
  from height_bound [OF d n s] obtain T where
    t: "insert_all AVLTree_init [10, 20, 30] = Inr T" and
    b: "real_of_int (true_height (root T)) \<le> 1.44 * log 2 (real (length [10, 20, 30 :: int]) + 2)"
    by blast
  have "T = \<lparr>root = Node 20 (Node 10 Absent Absent 1) (Node 30 Absent Absent 1) 2\<rparr>"
    using t unfolding e by simp
  with b have "real_of_int (true_height (Node 20 (Node 10 Absent Absent 1) (Node 30 Absent Absent 1) 2))
     \<le> 1.44 * log 2 (real (length [10, 20, 30 :: int]) + 2)"
    by (simp only: AVLTree.select_convs)
  with d n s e show ?thesis by blast
qed

section \<open>Claims about the rotations and their call sites\<close>

text \<open>
  C8: \<open>rotate_left\<close> on a node \<open>z\<close> with right child \<open>y\<close> returns \<open>y\<close> as the new root,
  with \<open>z\<close> as its left child and the old left subtree \<open>T2\<close> of \<open>y\<close> as the right child
  of \<open>z\<close>; the height of \<open>z\<close> is recomputed first and the height of \<open>y\<close> from it, so
  that both stored heights are the true ones when those of the three subtrees are.
  \<open>rotate_right\<close> is the mirror image, and both rotations keep the in-order sequence,
  the key set and the BST ordering.
\<close>

theorem rotations_correct:
  "rotate_left (Node zv zl (Node yv T2 yr yh) zh) =
     Inr (Node yv
            (Node zv zl T2 (1 + max (get_height zl) (get_height T2)))
            yr
            (1 + max (1 + max (get_height zl) (get_height T2)) (get_height yr))) \<and>
   (height_correct zl \<and> height_correct T2 \<and> height_correct yr \<longrightarrow>
      (\<forall>y. rotate_left (Node zv zl (Node yv T2 yr yh) zh) = Inr y \<longrightarrow> height_correct y)) \<and>
   rotate_right (Node zv (Node yv yl T3 yh) zr zh) =
     Inr (Node yv
            yl
            (Node zv T3 zr (1 + max (get_height T3) (get_height zr)))
            (1 + max (get_height yl) (1 + max (get_height T3) (get_height zr)))) \<and>
   (height_correct yl \<and> height_correct T3 \<and> height_correct zr \<longrightarrow>
      (\<forall>y. rotate_right (Node zv (Node yv yl T3 yh) zr zh) = Inr y \<longrightarrow> height_correct y)) \<and>
   rotate_right z = map_sum id mirror (rotate_left (mirror z)) \<and>
   rotate_left z = map_sum id mirror (rotate_right (mirror z)) \<and>
   (bst z \<longrightarrow>
      (\<forall>y. rotate_left z = Inr y \<longrightarrow> bst y \<and> inorder y = inorder z \<and> keys y = keys z) \<and>
      (\<forall>y. rotate_right z = Inr y \<longrightarrow> bst y \<and> inorder y = inorder z \<and> keys y = keys z))"
proof -
  have e1: "rotate_left (Node zv zl (Node yv T2 yr yh) zh) =
     Inr (Node yv
            (Node zv zl T2 (1 + max (get_height zl) (get_height T2)))
            yr
            (1 + max (1 + max (get_height zl) (get_height T2)) (get_height yr)))"
    by (simp add: Let_def)
  have e2: "rotate_right (Node zv (Node yv yl T3 yh) zr zh) =
     Inr (Node yv
            yl
            (Node zv T3 zr (1 + max (get_height T3) (get_height zr)))
            (1 + max (get_height yl) (1 + max (get_height T3) (get_height zr))))"
    by (simp add: Let_def)
  have hl: "height_correct zl \<and> height_correct T2 \<and> height_correct yr \<longrightarrow>
      (\<forall>y. rotate_left (Node zv zl (Node yv T2 yr yh) zh) = Inr y \<longrightarrow> height_correct y)"
    unfolding e1 by (simp add: get_height_correct)
  have hr: "height_correct yl \<and> height_correct T3 \<and> height_correct zr \<longrightarrow>
      (\<forall>y. rotate_right (Node zv (Node yv yl T3 yh) zr zh) = Inr y \<longrightarrow> height_correct y)"
    unfolding e2 by (simp add: get_height_correct)
  have k: "keys y = keys z" if "inorder y = inorder z" for y
    using that set_inorder [of y] set_inorder [of z] by simp
  have b: "bst z \<longrightarrow>
      (\<forall>y. rotate_left z = Inr y \<longrightarrow> bst y \<and> inorder y = inorder z \<and> keys y = keys z) \<and>
      (\<forall>y. rotate_right z = Inr y \<longrightarrow> bst y \<and> inorder y = inorder z \<and> keys y = keys z)"
    using rotate_left_bst [of z] rotate_left_inorder [of z] 
      rotate_right_bst [of z] rotate_right_inorder [of z] k
    by blast
  show ?thesis
    by (intro conjI) (rule e1 hl e2 hr rotate_right_mirror rotate_left_mirror b)+
qed

theorem rotations_correct_witness:
  "height_correct Absent \<and> height_correct (Node 30 Absent Absent 1) \<and>
   bst (Node 10 Absent (Node 20 Absent (Node 30 Absent Absent 1) 2) 3) \<and>
   rotate_left (Node 10 Absent (Node 20 Absent (Node 30 Absent Absent 1) 2) 3) =
     Inr (Node 20 (Node 10 Absent Absent 1) (Node 30 Absent Absent 1) 2) \<and>
   height_correct (Node 20 (Node 10 Absent Absent 1) (Node 30 Absent Absent 1) 2) \<and>
   bst (Node 20 (Node 10 Absent Absent 1) (Node 30 Absent Absent 1) 2) \<and>
   bst (Node 30 (Node 20 (Node 10 Absent Absent 1) Absent 2) Absent 3) \<and>
   height_correct (Node 10 Absent Absent 1) \<and>
   rotate_right (Node 30 (Node 20 (Node 10 Absent Absent 1) Absent 2) Absent 3) =
     Inr (Node 20 (Node 10 Absent Absent 1) (Node 30 Absent Absent 1) 2)"
  using rotations_correct [of 10 Absent 20 Absent "Node 30 Absent Absent 1" 2 3
      "Node 10 Absent Absent 1" Absent Absent
      "Node 10 Absent (Node 20 Absent (Node 30 Absent Absent 1) 2) 3"]
    rotations_correct [of 30 Absent 20 Absent Absent 2 3
      "Node 10 Absent Absent 1" Absent Absent
      "Node 30 (Node 20 (Node 10 Absent Absent 1) Absent 2) Absent 3"]
  by simp

text \<open>
  C10: null-safety of the rebalancing. With children whose stored heights are correct, a
  balance factor above 1 means that the left child is present (its height is at least
  2), one below -1 that the right child is. On every tree that is balanced and
  height-correct \<^verbatim>\<open>_insert\<close> returns a tree, so none of the accesses that would raise
  \<^verbatim>\<open>AttributeError\<close> (the comparisons with the child's value, \<^verbatim>\<open>y = z.right\<close>,
  \<^verbatim>\<open>y = z.left\<close> and the accesses to \<open>y\<close>) meets an absent node; the same holds for every
  sequence of insertions into the empty tree.
\<close>

theorem insert_null_safe:
  "(height_correct l \<and> height_correct r \<longrightarrow>
      (1 < get_balance (Node v l r h) \<longrightarrow> l \<noteq> Absent \<and> 2 \<le> true_height l) \<and>
      (get_balance (Node v l r h) < - 1 \<longrightarrow> r \<noteq> Absent \<and> 2 \<le> true_height r)) \<and>
   (balanced t \<and> height_correct t \<longrightarrow> (\<exists>t'. insert_rec t val = Inr t')) \<and>
   (\<exists>T. insert_all AVLTree_init ks = Inr T)"
proof -
  have a: "l \<noteq> Absent \<and> 2 \<le> true_height l"
    if "height_correct l" "height_correct r" "1 < get_balance (Node v l r h)"
  proof -
    have "1 < true_height l - true_height r"
      using that by (simp add: get_height_correct)
    with true_height_nonneg [of r] have "2 \<le> true_height l" by linarith
    then show ?thesis by auto
  qed
  have b: "r \<noteq> Absent \<and> 2 \<le> true_height r"
    if "height_correct l" "height_correct r" "get_balance (Node v l r h) < - 1"
  proof -
    have "true_height l - true_height r < - 1"
      using that by (simp add: get_height_correct)
    with true_height_nonneg [of l] have "2 \<le> true_height r" by linarith
    then show ?thesis by auto
  qed
  have c: "\<exists>t'. insert_rec t val = Inr t'" if "balanced t" "height_correct t"
    using insert_rec_avl [OF that, of val] by blast
  have d: "\<exists>T. insert_all AVLTree_init ks = Inr T"
    using insert_all_invariants [OF invariants_init, of ks] by blast
  from a b c d show ?thesis by blast
qed

theorem insert_null_safe_witness:
  "height_correct Absent \<and> height_correct (Node 20 Absent (Node 30 Absent Absent 1) 2) \<and>
   get_balance (Node 10 Absent (Node 20 Absent (Node 30 Absent Absent 1) 2) 3) < - 1 \<and>
   Node 20 Absent (Node 30 Absent Absent 1) 2 \<noteq> Absent \<and>
   balanced (Node 10 Absent (Node 20 Absent Absent 1) 2) \<and>
   height_correct (Node 10 Absent (Node 20 Absent Absent 1) 2) \<and>
   (\<exists>t'. insert_rec (Node 10 Absent (Node 20 Absent Absent 1) 2) 30 = Inr t')"
  using insert_null_safe [of Absent "Node 20 Absent (Node 30 Absent Absent 1) 2" 10 3
      "Node 10 Absent (Node 20 Absent Absent 1) 2" 30 "[]"]
  by simp

section \<open>Claims about the edge enumeration\<close>

text \<open>
  C4: \<open>generate_edges\<close> returns the pre-order enumeration of the parent-child pairs
  (left edge, left subtree, right edge, right subtree), its elements are exactly the
  parent-child pairs of the tree, and on the empty tree it returns the empty list.
\<close>

theorem generate_edges_preorder:
  "generate_edges T = preorder_edges (root T) \<and>
   set (generate_edges T) = parent_child (root T) \<and>
   generate_edges AVLTree_init = []"
  by (simp add: generate_edges_def generate_edges_rec_append set_preorder_edges AVLTree_init_def)

text \<open>
  C5: a tree with \<open>n\<close> nodes has \<open>n - 1\<close> edges when \<open>n \<ge> 1\<close>, and no edge when
  \<open>n = 0\<close> or \<open>n = 1\<close>. This holds for every tree, so also for those reached by
  insertions.
\<close>

theorem generate_edges_count:
  "int (length (generate_edges T)) =
     (if num_nodes (root T) = 0 then 0 else int (num_nodes (root T)) - 1) \<and>
   (num_nodes (root T) = 0 \<or> num_nodes (root T) = 1 \<longrightarrow> generate_edges T = [])"
proof -
  have len: "int (length (generate_edges T)) =
     (if num_nodes (root T) = 0 then 0 else int (num_nodes (root T)) - 1)"
    by (simp add: generate_edges_def generate_edges_rec_append length_preorder_edges
        num_nodes_zero_iff)
  have "generate_edges T = []" if "num_nodes (root T) = 0 \<or> num_nodes (root T) = 1"
    using that len by auto
  with len show ?thesis by blast
qed

theorem generate_edges_count_witness:
  "num_nodes (root \<lparr>root = Node 5 Absent Absent 1\<rparr>) = 1 \<and>
   generate_edges \<lparr>root = Node 5 Absent Absent 1\<rparr> = [] \<and>
   int (length (generate_edges
     \<lparr>root = Node 20 (Node 10 Absent Absent 1) (Node 30 Absent Absent 1) 2\<rparr>)) = 3 - 1"
  using generate_edges_count [of "\<lparr>root = Node 5 Absent Absent 1\<rparr>"]
    generate_edges_count [of "\<lparr>root = Node 20 (Node 10 Absent Absent 1) (Node 30 Absent Absent 1) 2\<rparr>"]
  by simp

section \<open>Example scenario\<close>

text \<open>
  C9: inserting 10, 20, 30 into the empty tree. The first two insertions do not rotate;
  the third leaves the node holding 20 unrotated and finds balance -2 at the node holding
  10, where \<open>rebalance\<close> returns the left rotation of that node. The result has root 20
  with children 10 and 30, and its edges are (20, 10), (20, 30).
\<close>

theorem insert_10_20_30:
  "insert_all AVLTree_init [10, 20] =
     Inr \<lparr>root = Node 10 Absent (Node 20 Absent Absent 1) 2\<rparr> \<and>
   insert_rec (Node 20 Absent Absent 1) 30 = Inr (Node 20 Absent (Node 30 Absent Absent 1) 2) \<and>
   get_balance (Node 10 Absent (Node 20 Absent (Node 30 Absent Absent 1) 2) 3) = - 2 \<and>
   rebalance (Node 10 Absent (Node 20 Absent (Node 30 Absent Absent 1) 2) 2) 30 =
     rotate_left (Node 10 Absent (Node 20 Absent (Node 30 Absent Absent 1) 2) 3) \<and>
   insert_all AVLTree_init [10, 20, 30] =
     Inr \<lparr>root = Node 20 (Node 10 Absent Absent 1) (Node 30 Absent Absent 1) 2\<rparr> \<and>
   generate_edges \<lparr>root = Node 20 (Node 10 Absent Absent 1) (Node 30 Absent Absent 1) 2\<rparr> =
     [(20, 10), (20, 30)]"
  by (simp add: AVLTree_init_def insert_tree_def and_less_def and_greater_def generate_edges_def)

end
